theory Spec2Isabelle
  imports Main "HOL-Library.Word"
begin

unbundle bit_operations_syntax

section \<open>Number Link solver: data model\<close>

text \<open>
  The solver class keeps its cell keys in \<open>short\<close> variables (\<open>CellKey\<close>), with \<open>-1\<close> as the
  sentinel of a cell that already carries two line segments, and its cell numbers in \<open>char\<close>
  variables (\<open>CellNumber\<close>). Both are modelled as \<open>int\<close>; a vector indexed by a key \<open>k\<close> is a
  list read at \<open>nat k\<close>. The arithmetic of the source stays inside the range of \<open>short\<close> as
  long as the board has at most 32767 cells, which the theorems about whole boards assume.
  The one place where a number is converted to \<open>char\<close> is the assignment
  \<open>nl.Cell(x, y) = value\<close> of the driver; the conversion is \<open>to_char\<close> below.

  The solution counts of the source are \<open>double\<close> values that only ever hold sums of the
  constants \<open>0.0\<close> and \<open>1.0\<close>; they are modelled as natural numbers.
  The diagram output (\<open>Print\<close>, \<open>connected_x_\<close>, \<open>connected_y_\<close>, \<open>solved_\<close>) never feeds back
  into a count or into the table of mates and is left out of the model.
\<close>

type_synonym CellKey = int
type_synonym CellNumber = int
type_synonym Hash = "64 word \<times> 64 word"

record solver =
  mates :: "CellKey list"
  mate_stack :: "(CellKey \<times> CellKey) list"
  memo :: "(Hash \<rightharpoonup> nat) list"

section \<open>The table of mates and its history\<close>

text \<open>\<open>mate_stack_\<close> is a \<open>std::stack\<close>; its top is the head of the list.\<close>

definition ChangeMates :: "CellKey \<Rightarrow> CellKey \<Rightarrow> solver \<Rightarrow> nat \<times> solver" where
  "ChangeMates cell_key cell_value st =
     (let last_stack_size = length (mate_stack st);
          last_value = mates st ! nat cell_key
      in if last_value \<noteq> cell_value
         then (last_stack_size,
               st\<lparr>mate_stack := (cell_key, last_value) # mate_stack st,
                  mates := (mates st)[nat cell_key := cell_value]\<rparr>)
         else (last_stack_size, st))"

function RevertMates :: "nat \<Rightarrow> solver \<Rightarrow> solver" where
  "RevertMates stack_size st =
     (if stack_size < length (mate_stack st)
      then RevertMates stack_size
             (st\<lparr>mates := (mates st)[nat (fst (hd (mate_stack st))) := snd (hd (mate_stack st))],
                mate_stack := tl (mate_stack st)\<rparr>)
      else st)"
  by pat_completeness auto
termination
  by (relation "measure (\<lambda>(n, st). length (mate_stack st))") auto

declare RevertMates.simps [simp del]

definition UniteMates :: "CellNumber list \<Rightarrow> CellKey \<Rightarrow> CellKey \<Rightarrow> solver \<Rightarrow> bool \<times> solver" where
  "UniteMates table cell_key1 cell_key2 st =
     (let end1 = mates st ! nat cell_key1;
          end2 = mates st ! nat cell_key2
      in if end1 = -1 \<or> end2 = -1 then (False, st)
         else if cell_key1 = end2 \<and> cell_key2 = end1 then (False, st)
         else
           let st1 = snd (ChangeMates cell_key1 (-1) st);
               st2 = snd (ChangeMates cell_key2 (-1) st1);
               st3 = snd (ChangeMates end1 end2 st2);
               st4 = snd (ChangeMates end2 end1 st3)
           in if mates st4 ! nat cell_key1 = -1 \<and> 0 < table ! nat cell_key1 then (False, st4)
              else if mates st4 ! nat cell_key2 = -1 \<and> 0 < table ! nat cell_key2 then (False, st4)
              else if 0 < table ! nat end1 \<and> 0 < table ! nat end2 \<and>
                      table ! nat end1 \<noteq> table ! nat end2 then (False, st4)
              else (True, st4))"

text \<open>
  A table of mates over \<open>n\<close> cells is well formed when every entry is the sentinel \<open>-1\<close> or a
  key of the board whose own entry points back (a cell with no segment points at itself).
\<close>

definition mates_wf :: "nat \<Rightarrow> CellKey list \<Rightarrow> bool" where
  "mates_wf n m \<longleftrightarrow>
     length m = n \<and>
     (\<forall>c \<in> {0..<n}. m ! c = -1 \<or> (0 \<le> m ! c \<and> m ! c < int n \<and> m ! nat (m ! c) = int c))"

definition valid_key :: "nat \<Rightarrow> CellKey \<Rightarrow> bool" where
  "valid_key n k \<longleftrightarrow> 0 \<le> k \<and> k < int n"

section \<open>Initial table of mates\<close>

text \<open>The first loop of \<open>Initialize\<close>: every cell starts as its own mate.\<close>

function init_mates :: "CellKey \<Rightarrow> CellKey \<Rightarrow> CellKey list \<Rightarrow> CellKey list" where
  "init_mates n cell_key m =
     (if cell_key < n then init_mates n (cell_key + 1) (m[nat cell_key := cell_key]) else m)"
  by pat_completeness auto
termination
  by (relation "measure (\<lambda>(n, cell_key, m). nat (n - cell_key))") auto

declare init_mates.simps [simp del]

section \<open>Sequences of merges and rollbacks\<close>

text \<open>
  \<open>united a b st\<close> is the state after the four \<open>ChangeMates\<close> calls of \<open>UniteMates\<close>,
  before its three legality checks.
\<close>

definition united :: "CellKey \<Rightarrow> CellKey \<Rightarrow> solver \<Rightarrow> solver" where
  "united a b st =
     (let end1 = mates st ! nat a; end2 = mates st ! nat b
      in snd (ChangeMates end2 end1 (snd (ChangeMates end1 end2
           (snd (ChangeMates b (-1) (snd (ChangeMates a (-1) st))))))))"

text \<open>Any sequence of \<open>UniteMates\<close> calls, whatever each of them returns.\<close>

fun unite_all :: "CellNumber list \<Rightarrow> (CellKey \<times> CellKey) list \<Rightarrow> solver \<Rightarrow> solver" where
  "unite_all table [] st = st"
| "unite_all table ((a, b) # ps) st = unite_all table ps (snd (UniteMates table a b st))"

text \<open>
  The connectivity states that occur after initialisation, merges (successful or failed),
  checkpoints (\<open>revert_point = mate_stack_.size()\<close>) and rollbacks to a checkpoint taken
  earlier and not yet abandoned. The second component lists the live checkpoints, the
  most recent first; rolling back to one of them abandons the more recent ones, as the
  nesting of \<open>Connect\<close> calls does.
\<close>

inductive reachable :: "CellNumber list \<Rightarrow> nat \<Rightarrow> solver \<times> nat list \<Rightarrow> bool"
  for table :: "CellNumber list" and n :: nat where
  init: "reachable table n (\<lparr>mates = init_mates (int n) 0 (replicate n 0), mate_stack = [], memo = replicate n Map.empty\<rparr>, [])"
| unite: "reachable table n (st, marks) \<Longrightarrow> valid_key n a \<Longrightarrow> valid_key n b \<Longrightarrow>
          reachable table n (snd (UniteMates table a b st), marks)"
| checkpoint: "reachable table n (st, marks) \<Longrightarrow>
          reachable table n (st, length (mate_stack st) # marks)"
| rollback: "reachable table n (st, marks) \<Longrightarrow> mark \<in> set marks \<Longrightarrow>
          reachable table n (RevertMates mark st, dropWhile (\<lambda>x. x \<noteq> mark) marks)"

definition reach_inv :: "nat \<Rightarrow> solver \<times> nat list \<Rightarrow> bool" where
  "reach_inv n c \<longleftrightarrow>
     (case c of (st, marks) \<Rightarrow>
        sorted_wrt (\<ge>) marks \<and>
        mates_wf n (mates st) \<and>
        (\<forall>mk \<in> set marks. mk \<le> length (mate_stack st) \<and> mates_wf n (mates (RevertMates mk st))))"

section \<open>The board and the cell order\<close>

text \<open>
  The fields that are fixed once \<open>Initialize\<close> has run and the numbers are stored form the
  record \<open>board\<close>; the fields the search changes form the record \<open>solver\<close> above.
  \<open>board_size\<close> is the field \<open>size_\<close>. The constructor converts \<open>width * height\<close> to
  \<open>short\<close> (\<open>to_short\<close>: the value modulo \<open>2^16\<close>, in two's complement); a negative value
  makes the vector constructors throw \<open>std::length_error\<close>. Below the constructor the keys
  and positions of a board with at most 32767 cells stay in the range of \<open>short\<close>, and the
  model computes with them as integers.
\<close>

definition to_short :: "int \<Rightarrow> int" where
  "to_short v = (v + 32768) mod 65536 - 32768"

record board =
  width :: int
  height :: int
  board_size :: CellKey
  cell_x :: "int list"
  cell_y :: "int list"
  table :: "CellNumber list"
  keys :: "CellKey list"
  start :: "CellKey list"

datatype error = LengthError

definition NumberLink :: "int \<Rightarrow> int \<Rightarrow> error + board \<times> solver" where
  "NumberLink w h =
     (let sz = to_short (to_short w * h)
      in if sz < 0 then Inl LengthError
         else Inr (\<lparr>width = w, height = h, board_size = sz,
                     cell_x = replicate (nat sz) 0, cell_y = replicate (nat sz) 0,
                     table = replicate (nat sz) 0, keys = replicate (nat sz) 0,
                     start = replicate (nat (sz + 1)) 0\<rparr>,
                   \<lparr>mates = replicate (nat sz) 0, mate_stack = [],
                     memo = replicate (nat sz) Map.empty\<rparr>))"

definition GetCellKey :: "board \<Rightarrow> int \<Rightarrow> int \<Rightarrow> CellKey" where
  "GetCellKey B x y = keys B ! nat (y * width B + x)"

text \<open>
  The do-while loop of \<open>Initialize\<close>: step down the anti-diagonal, wrap to the top of the
  next one, until the coordinate is on the board. It need not terminate (it does not when
  no later cell exists), so it is a partial function; \<open>None\<close> is non-termination.
\<close>

partial_function (option) next_cell :: "int \<Rightarrow> int \<Rightarrow> int \<Rightarrow> int \<Rightarrow> (int \<times> int) option" where
  "next_cell w h x y =
     (let x1 = x - 1; y1 = y + 1;
          x2 = (if x1 < 0 then y1 else x1);
          y2 = (if x1 < 0 then 0 else y1)
      in if x2 < 0 \<or> w \<le> x2 \<or> y2 < 0 \<or> h \<le> y2 then next_cell w h x2 y2 else Some (x2, y2))"

text \<open>The \<open>while (true)\<close> loop of \<open>Initialize\<close> that assigns the keys.\<close>

partial_function (option) assign_keys :: "board \<Rightarrow> int \<Rightarrow> int \<Rightarrow> CellKey \<Rightarrow> board option" where
  "assign_keys B x y cell_key =
     (let position = y * width B + x;
          B1 = B\<lparr>cell_x := (cell_x B)[nat cell_key := x],
                 cell_y := (cell_y B)[nat cell_key := y],
                 keys := (keys B)[nat position := cell_key]\<rparr>;
          cell_key1 = cell_key + 1
      in if cell_key1 = board_size B1 then Some B1
         else Option.bind (next_cell (width B1) (height B1) x y)
                (\<lambda>p. assign_keys B1 (fst p) (snd p) cell_key1))"

declare next_cell.simps [code] assign_keys.simps [code]

text \<open>The loop that pre-computes, for every key, the key to look back to.\<close>

function init_start :: "board \<Rightarrow> CellKey \<Rightarrow> board" where
  "init_start B i =
     (if i < board_size B
      then (let x = cell_x B ! nat i; y = cell_y B ! nat i
            in init_start
                 (B\<lparr>start := (start B)[nat i :=
                      (if 0 < y then GetCellKey B x (y - 1)
                       else if 0 < x then GetCellKey B (x - 1) y else 0)]\<rparr>)
                 (i + 1))
      else B)"
  by pat_completeness auto
termination
  by (relation "measure (\<lambda>(B, i). nat (board_size B - i))") auto

declare init_start.simps [simp del]

definition Initialize :: "board \<times> solver \<Rightarrow> (board \<times> solver) option" where
  "Initialize nl =
     (let B = fst nl; st = snd nl;
          st1 = st\<lparr>mates := init_mates (board_size B) 0 (mates st)\<rparr>
      in case assign_keys B 0 0 0 of
           None \<Rightarrow> None
         | Some B1 \<Rightarrow>
             let B2 = init_start B1 0;
                 B3 = B2\<lparr>start := (start B2)[nat (board_size B2) := board_size B2]\<rparr>
             in Some (B3, st1))"

section \<open>The search\<close>

text \<open>
  The loop at the head of \<open>Solve\<close> over the newly fixed cells; \<open>False\<close> is its
  \<open>return 0.0\<close>.
\<close>

function fixed_cells_ok :: "board \<Rightarrow> solver \<Rightarrow> CellKey \<Rightarrow> CellKey \<Rightarrow> bool" where
  "fixed_cells_ok B st hidden bound =
     (if hidden < bound
      then (if table B ! nat hidden = 0
            then (if mates st ! nat hidden \<noteq> -1 \<and> mates st ! nat hidden \<noteq> hidden then False
                  else fixed_cells_ok B st (hidden + 1) bound)
            else (if mates st ! nat hidden = hidden then False
                  else fixed_cells_ok B st (hidden + 1) bound))
      else True)"
  by pat_completeness auto
termination
  by (relation "measure (\<lambda>(B, st, hidden, bound). nat (bound - hidden))") auto

declare fixed_cells_ok.simps [simp del]

text \<open>
  \<open>GetHash\<close>: the four 32-bit words of the XorShift state, one round per key. In the source
  line \<open>w = (w ^ (w >> 19)) ^ (t ^ (t >> 8)) + key\<close> the addition binds tighter than the
  exclusive or. A key is converted to \<open>unsigned int\<close>, so \<open>-1\<close> becomes \<open>2^32 - 1\<close>.
\<close>

fun GetHash_loop :: "32 word \<times> 32 word \<times> 32 word \<times> 32 word \<Rightarrow> CellKey list
                       \<Rightarrow> 32 word \<times> 32 word \<times> 32 word \<times> 32 word" where
  "GetHash_loop s [] = s"
| "GetHash_loop (x, y, z, w) (k # cell_keys) =
     (let t = x XOR push_bit 11 x
      in GetHash_loop (y, z, w, (w XOR drop_bit 19 w) XOR ((t XOR drop_bit 8 t) + word_of_int k))
           cell_keys)"

definition GetHash :: "CellKey list \<Rightarrow> Hash" where
  "GetHash cell_keys =
     (case GetHash_loop (123456789, 362436069, 521288629, 88675123) cell_keys of
        (x, y, z, w) \<Rightarrow> (push_bit 32 (ucast x) OR ucast y, push_bit 32 (ucast z) OR ucast w))"

text \<open>The vector built from \<open>mates_.begin() + start_[cell_key]\<close> to \<open>mates_.begin() + cell_key\<close>.\<close>

definition mate_tuple :: "board \<Rightarrow> solver \<Rightarrow> CellKey \<Rightarrow> CellKey list" where
  "mate_tuple B st cell_key =
     drop (nat (start B ! nat cell_key)) (take (nat cell_key) (mates st))"

text \<open>
  \<open>Solve\<close> and \<open>Connect\<close>. Outside \<open>0 \<le> cell_key \<le> size_\<close> (\<open>Solve\<close>) and
  \<open>0 \<le> cell_key < size_\<close> (\<open>Connect\<close>) the source would index its vectors out of bounds;
  the search is entered at key 0 and moves one key at a time up to \<open>size_\<close>, where \<open>Solve\<close>
  returns before calling \<open>Connect\<close>, so these calls never occur, and the model returns 0
  there to be total. The counts are \<open>double\<close> in the source and natural numbers here: the
  source only adds them, which is exact below \<open>2 ^ 53\<close>. The assignment
  \<open>memo_[cell_key][mate_hash] = Connect(cell_key)\<close> stores the count under the fingerprint
  computed before the call.
\<close>

function Solve :: "board \<Rightarrow> CellKey \<Rightarrow> solver \<Rightarrow> nat \<times> solver"
  and Connect :: "board \<Rightarrow> CellKey \<Rightarrow> solver \<Rightarrow> nat \<times> solver" where
  "Solve B cell_key st =
     (if cell_key < 0 \<or> board_size B < cell_key then (0, st)
      else if 0 < cell_key \<and>
              \<not> fixed_cells_ok B st (start B ! nat (cell_key - 1)) (start B ! nat cell_key)
      then (0, st)
      else if cell_key = board_size B then (1, st)
      else
        let mate_hash = GetHash (mate_tuple B st cell_key)
        in case (memo st ! nat cell_key) mate_hash of
             None \<Rightarrow>
               (case Connect B cell_key st of
                  (solution_count, st1) \<Rightarrow>
                    (solution_count,
                     st1\<lparr>memo := (memo st1)[nat cell_key :=
                                    (memo st1 ! nat cell_key)(mate_hash \<mapsto> solution_count)]\<rparr>))
           | Some solution_count \<Rightarrow> (solution_count, st))"
| "Connect B cell_key st =
     (if cell_key < 0 \<or> board_size B \<le> cell_key then (0, st)
      else
        let x = cell_x B ! nat cell_key; y = cell_y B ! nat cell_key;
            left_cell_key = (if 0 < x then GetCellKey B (x - 1) y else -1);
            up_cell_key = (if 0 < y then GetCellKey B x (y - 1) else -1);
            revert_point = length (mate_stack st)
        in case Solve B (cell_key + 1) st of
             (count0, st0) \<Rightarrow>
               (case (if 0 \<le> up_cell_key
                      then (case UniteMates (table B) cell_key up_cell_key st0 of
                              (united_up, su) \<Rightarrow>
                                (case (if united_up
                                       then (case Solve B (cell_key + 1) su of
                                               (c, s) \<Rightarrow> (count0 + c, s))
                                       else (count0, su)) of
                                   (c, s) \<Rightarrow> (c, RevertMates revert_point s)))
                      else (count0, st0)) of
                  (count1, st1) \<Rightarrow>
                    (if 0 \<le> left_cell_key
                     then (case UniteMates (table B) cell_key left_cell_key st1 of
                             (united_left, sl) \<Rightarrow>
                               (case (if united_left
                                      then (case Solve B (cell_key + 1) sl of
                                              (c, s) \<Rightarrow>
                                                (if 0 \<le> up_cell_key
                                                 then (case UniteMates (table B) cell_key up_cell_key s of
                                                         (united_both, sb) \<Rightarrow>
                                                           (if united_both
                                                            then (case Solve B (cell_key + 1) sb of
                                                                    (c', s') \<Rightarrow> (count1 + c + c', s'))
                                                            else (count1 + c, sb)))
                                                 else (count1 + c, s)))
                                      else (count1, sl)) of
                                  (c, s) \<Rightarrow> (c, RevertMates revert_point s)))
                     else (count1, st1))))"
  by pat_completeness auto
termination
  by (relation "measure (\<lambda>v. case v of
         Inl (B, cell_key, st) \<Rightarrow> 2 * nat (board_size B - cell_key) + 1
       | Inr (B, cell_key, st) \<Rightarrow> 2 * nat (board_size B - cell_key))") auto

declare Solve.simps [simp del] Connect.simps [simp del]

section \<open>The driver up to the search\<close>

text \<open>
  One round of the input loop of \<open>main\<close>, up to \<open>Initialize\<close>: the loop ends when a
  dimension is 0 (\<open>Stop\<close>); otherwise the solver is constructed, which may throw, and
  initialised, which may fail to return.
\<close>

datatype outcome = Stop | Throws error | NoReturn | Ready board solver

definition main_setup :: "int \<Rightarrow> int \<Rightarrow> outcome" where
  "main_setup w h =
     (if w \<noteq> 0 \<and> h \<noteq> 0
      then (case NumberLink w h of
              Inl e \<Rightarrow> Throws e
            | Inr nl \<Rightarrow> (case Initialize nl of None \<Rightarrow> NoReturn | Some (B, st) \<Rightarrow> Ready B st))
      else Stop)"

text \<open>
  The two nested loops of \<open>main\<close> that read the numbers row by row and store each with
  \<open>nl.Cell(x, y) = value\<close>, that is in \<open>table_\<close> at the key of the coordinate. The input is
  the list of the numbers still to be read; \<open>None\<close> stands for an input that ends early
  (the source then stores an indeterminate value). The assignment converts the \<open>int\<close>
  that was read to \<open>CellNumber\<close>, that is \<open>char\<close>: \<open>to_char\<close> takes \<open>char\<close> to be the signed
  8-bit type of the x86 and x86-64 ABIs and keeps the value modulo \<open>2^8\<close> in two's
  complement, so a number from 0 to 127 is stored unchanged, 200 is stored as \<open>-56\<close> and
  256 as 0.
\<close>

definition to_char :: "int \<Rightarrow> CellNumber" where
  "to_char v = (v + 128) mod 256 - 128"

function read_cells :: "board \<Rightarrow> int \<Rightarrow> int \<Rightarrow> int list \<Rightarrow> board option" where
  "read_cells B x y input =
     (if y < height B
      then (if x < width B
            then (case input of
                    [] \<Rightarrow> None
                  | v # rest \<Rightarrow>
                      read_cells (B\<lparr>table := (table B)[nat (GetCellKey B x y) := to_char v]\<rparr>)
                        (x + 1) y rest)
            else read_cells B 0 (y + 1) input)
      else Some B)"
  by pat_completeness auto
termination
  by (relation "measures [\<lambda>(B, x, y, input). nat (height B - y),
                          \<lambda>(B, x, y, input). nat (width B - x)]") auto

declare read_cells.simps [simp del]

section \<open>Notions used in the statements and proofs\<close>

text \<open>
  A coordinate on the board, and the rank of a coordinate in the enumeration of the
  quadrant by anti-diagonals, each from its top-right end: \<open>tri (x + y)\<close> coordinates lie
  on earlier diagonals and \<open>y\<close> earlier on the same one.
\<close>

definition tri :: "int \<Rightarrow> int" where
  "tri d = d * (d + 1) div 2"

definition diag_rank :: "int \<Rightarrow> int \<Rightarrow> int" where
  "diag_rank x y = tri (x + y) + y"

definition in_grid :: "int \<Rightarrow> int \<Rightarrow> int \<Rightarrow> int \<Rightarrow> bool" where
  "in_grid w h x y \<longleftrightarrow> 0 \<le> x \<and> x < w \<and> 0 \<le> y \<and> y < h"

text \<open>The invariant of the key-assigning loop after \<open>k\<close> keys.\<close>

definition keys_inv :: "int \<Rightarrow> int \<Rightarrow> board \<Rightarrow> nat \<Rightarrow> bool" where
  "keys_inv w h B k \<longleftrightarrow>
     width B = w \<and> height B = h \<and> board_size B = w * h \<and>
     length (cell_x B) = nat (w * h) \<and> length (cell_y B) = nat (w * h) \<and>
     length (keys B) = nat (w * h) \<and>
     (\<forall>j<k. in_grid w h (cell_x B ! j) (cell_y B ! j) \<and>
            keys B ! nat (cell_y B ! j * w + cell_x B ! j) = int j) \<and>
     (\<forall>i<k. \<forall>j<k. i < j \<longrightarrow>
            diag_rank (cell_x B ! i) (cell_y B ! i) < diag_rank (cell_x B ! j) (cell_y B ! j))"

text \<open>The value \<open>Initialize\<close> stores in \<open>start_[j]\<close>, and the result of \<open>Initialize\<close>.\<close>

definition look_back :: "board \<Rightarrow> nat \<Rightarrow> CellKey" where
  "look_back B j =
     (if 0 < cell_y B ! j then GetCellKey B (cell_x B ! j) (cell_y B ! j - 1)
      else if 0 < cell_x B ! j then GetCellKey B (cell_x B ! j - 1) (cell_y B ! j) else 0)"

definition board_ok :: "int \<Rightarrow> int \<Rightarrow> board \<Rightarrow> bool" where
  "board_ok w h B \<longleftrightarrow>
     keys_inv w h B (nat (w * h)) \<and>
     length (start B) = Suc (nat (w * h)) \<and>
     (\<forall>j<nat (w * h). start B ! j = look_back B j) \<and>
     start B ! nat (w * h) = w * h"

text \<open>
  The keys \<open>up_cell_key\<close> and \<open>left_cell_key\<close> that \<open>Connect\<close> computes for a key, and what the
  search needs of the cell order: a cell is never merged with a cell below its look-back
  key, the look-back keys never decrease, and the neighbours above and to the left have
  smaller keys.
\<close>

definition up_key :: "board \<Rightarrow> nat \<Rightarrow> CellKey" where
  "up_key B k = (if 0 < cell_y B ! k then GetCellKey B (cell_x B ! k) (cell_y B ! k - 1) else -1)"

definition left_key :: "board \<Rightarrow> nat \<Rightarrow> CellKey" where
  "left_key B k = (if 0 < cell_x B ! k then GetCellKey B (cell_x B ! k - 1) (cell_y B ! k) else -1)"

definition geometry_ok :: "board \<Rightarrow> nat \<Rightarrow> bool" where
  "geometry_ok B n \<longleftrightarrow>
     board_size B = int n \<and> length (start B) = Suc n \<and> start B ! n = int n \<and>
     (\<forall>k<n. start B ! k \<le> int k \<and> start B ! k \<le> start B ! Suc k \<and>
            (up_key B k = -1 \<or>
               (0 \<le> up_key B k \<and> start B ! k \<le> up_key B k \<and> up_key B k < int k)) \<and>
            (left_key B k = -1 \<or>
               (0 \<le> left_key B k \<and> start B ! k \<le> left_key B k \<and> left_key B k < int k)))"

text \<open>
  A cell whose state is final in the sense of the check in \<open>Solve\<close>, and the invariant of the
  search: the table is well formed, no numbered cell is closed, the two ends of a chain
  carry the same number when both are numbered, and every cell below the bound is final.
\<close>

definition fixed_ok :: "CellNumber list \<Rightarrow> CellKey list \<Rightarrow> nat \<Rightarrow> bool" where
  "fixed_ok tbl m h \<longleftrightarrow>
     (tbl ! h = 0 \<longrightarrow> m ! h = -1 \<or> m ! h = int h) \<and> (tbl ! h \<noteq> 0 \<longrightarrow> m ! h \<noteq> int h)"

definition search_inv :: "CellNumber list \<Rightarrow> nat \<Rightarrow> int \<Rightarrow> CellKey list \<Rightarrow> bool" where
  "search_inv tbl n bnd m \<longleftrightarrow>
     mates_wf n m \<and>
     (\<forall>c<n. 0 < tbl ! c \<longrightarrow> m ! c \<noteq> -1) \<and>
     (\<forall>c<n. m ! c \<noteq> -1 \<and> 0 < tbl ! c \<and> 0 < tbl ! nat (m ! c) \<longrightarrow> tbl ! nat (m ! c) = tbl ! c) \<and>
     (\<forall>h<n. int h < bnd \<longrightarrow> fixed_ok tbl m h)"

text \<open>A memo table that holds only zero counts.\<close>

definition memo_zero :: "nat \<Rightarrow> (Hash \<rightharpoonup> nat) list \<Rightarrow> bool" where
  "memo_zero n M \<longleftrightarrow> length M = n \<and> (\<forall>i<n. \<forall>key c. (M ! i) key = Some c \<longrightarrow> c = 0)"

text \<open>
  The two blocks of \<open>Connect\<close> that follow the first recursive call, with the recursive
  call as a parameter: the merge with the cell above, and the merge with the cell to the
  left followed, when it succeeds, by the merge with the cell above.
\<close>

definition branch_up ::
  "(solver \<Rightarrow> nat \<times> solver) \<Rightarrow> CellNumber list \<Rightarrow> CellKey \<Rightarrow> CellKey \<Rightarrow> nat \<Rightarrow> nat \<Rightarrow> solver
     \<Rightarrow> nat \<times> solver" where
  "branch_up solve tbl cell_key up_cell_key revert_point count0 st0 =
     (case UniteMates tbl cell_key up_cell_key st0 of
        (united_up, su) \<Rightarrow>
          (case (if united_up
                 then (case solve su of (c, s) \<Rightarrow> (count0 + c, s))
                 else (count0, su)) of
             (c, s) \<Rightarrow> (c, RevertMates revert_point s)))"

definition branch_left ::
  "(solver \<Rightarrow> nat \<times> solver) \<Rightarrow> CellNumber list \<Rightarrow> CellKey \<Rightarrow> CellKey \<Rightarrow> CellKey \<Rightarrow> nat \<Rightarrow> nat
     \<Rightarrow> solver \<Rightarrow> nat \<times> solver" where
  "branch_left solve tbl cell_key left_cell_key up_cell_key revert_point count1 st1 =
     (case UniteMates tbl cell_key left_cell_key st1 of
        (united_left, sl) \<Rightarrow>
          (case (if united_left
                 then (case solve sl of
                         (c, s) \<Rightarrow>
                           (if 0 \<le> up_cell_key
                            then (case UniteMates tbl cell_key up_cell_key s of
                                    (united_both, sb) \<Rightarrow>
                                      (if united_both
                                       then (case solve sb of
                                               (c', s') \<Rightarrow> (count1 + c + c', s'))
                                       else (count1 + c, sb)))
                            else (count1 + c, s)))
                 else (count1, sl)) of
             (c, s) \<Rightarrow> (c, RevertMates revert_point s)))"

text \<open>A search function that finds no solution from any state satisfying the invariant.\<close>

definition good_solve ::
  "(solver \<Rightarrow> nat \<times> solver) \<Rightarrow> CellNumber list \<Rightarrow> nat \<Rightarrow> int \<Rightarrow> bool" where
  "good_solve solve tbl n bnd \<longleftrightarrow>
     (\<forall>s. search_inv tbl n bnd (mates s) \<and> memo_zero n (memo s) \<longrightarrow>
          (\<exists>M. solve s = (0, s\<lparr>memo := M\<rparr>) \<and> memo_zero n M))"

text \<open>A board of one cell that carries the number 5.\<close>

definition example_board :: board where
  "example_board = \<lparr>width = 1, height = 1, board_size = 1, cell_x = [0], cell_y = [0],
                      table = [5], keys = [0], start = [0, 1]\<rparr>"

text \<open>
  The board of width 3 and height 1 with the numbers 1, 0, 1, and the state of the search
  on it when \<open>Solve\<close> is called at key 2 after the cells 0 and 1 have been connected.
\<close>

definition line_board :: board where
  "line_board = \<lparr>width = 3, height = 1, board_size = 3, cell_x = [0, 1, 2],
                   cell_y = [0, 0, 0], table = [1, 0, 1], keys = [0, 1, 2],
                   start = [0, 0, 1, 3]\<rparr>"

definition line_state :: solver where
  "line_state = \<lparr>mates = [1, 0, 2], mate_stack = [(0, -1), (1, -1), (0, 0), (1, 1)],
                   memo = [Map.empty, Map.empty, Map.empty]\<rparr>"

section \<open>Basic facts about the history\<close>

lemma ChangeMates_stack_mono:
  "length (mate_stack st) \<le> length (mate_stack (snd (ChangeMates k v st)))"
  by (simp add: ChangeMates_def Let_def)

lemma ChangeMates_first_push:
  "mates st ! nat k \<noteq> v \<Longrightarrow>
   length (mate_stack (snd (ChangeMates k v st))) = Suc (length (mate_stack st))"
  by (simp add: ChangeMates_def Let_def)

lemma ChangeMates_mates: "mates (snd (ChangeMates k v st)) = (mates st)[nat k := v]"
  by (auto simp: ChangeMates_def Let_def)

lemma ChangeMates_memo: "memo (snd (ChangeMates k v st)) = memo st"
  by (simp add: ChangeMates_def Let_def)

lemma ChangeMates_stack:
  "mate_stack (snd (ChangeMates k v st)) =
     (if mates st ! nat k \<noteq> v then [(k, mates st ! nat k)] else []) @ mate_stack st"
  by (simp add: ChangeMates_def Let_def)

lemma RevertMates_noop: "length (mate_stack st) \<le> n \<Longrightarrow> RevertMates n st = st"
  by (simp add: RevertMates.simps)

lemma RevertMates_ChangeMates:
  "n \<le> length (mate_stack st) \<Longrightarrow> RevertMates n (snd (ChangeMates k v st)) = RevertMates n st"
proof (cases "mates st ! nat k = v")
  case True
  then show ?thesis by (simp add: ChangeMates_def Let_def)
next
  case False
  assume n: "n \<le> length (mate_stack st)"
  let ?st' = "snd (ChangeMates k v st)"
  have "RevertMates n ?st' =
        RevertMates n (?st'\<lparr>mates := (mates ?st')[nat (fst (hd (mate_stack ?st'))) := snd (hd (mate_stack ?st'))],
                mate_stack := tl (mate_stack ?st')\<rparr>)"
    using n False by (subst RevertMates.simps) (simp add: ChangeMates_def Let_def)
  also have "(?st'\<lparr>mates := (mates ?st')[nat (fst (hd (mate_stack ?st'))) := snd (hd (mate_stack ?st'))],
                mate_stack := tl (mate_stack ?st')\<rparr>) = st"
    using False by (simp add: ChangeMates_def Let_def)
  finally show ?thesis .
qed

lemma UniteMates_cases:
  "snd (UniteMates t a b st) = st \<or> snd (UniteMates t a b st) = united a b st"
  unfolding UniteMates_def united_def Let_def
  by (simp only: snd_conv if_distrib [of snd] split: if_split) blast

lemma RevertMates_united:
  "n \<le> length (mate_stack st) \<Longrightarrow> RevertMates n (united a b st) = RevertMates n st"
  unfolding united_def Let_def
  by (simp add: RevertMates_ChangeMates le_trans [OF _ ChangeMates_stack_mono])

lemma RevertMates_UniteMates:
  "n \<le> length (mate_stack st) \<Longrightarrow> RevertMates n (snd (UniteMates t a b st)) = RevertMates n st"
  using UniteMates_cases [of t a b st] by (auto simp: RevertMates_united)

lemma united_mates:
  "mates (united a b st) =
     (mates st)[nat a := -1, nat b := -1,
                nat (mates st ! nat a) := mates st ! nat b,
                nat (mates st ! nat b) := mates st ! nat a]"
  by (simp add: united_def Let_def ChangeMates_mates)

lemma united_memo: "memo (united a b st) = memo st"
  by (simp add: united_def Let_def ChangeMates_memo)

lemma united_stack_grows:
  assumes "mates st ! nat a \<noteq> -1"
  shows "length (mate_stack st) < length (mate_stack (united a b st))"
proof -
  let ?e1 = "mates st ! nat a" and ?e2 = "mates st ! nat b"
  let ?s1 = "snd (ChangeMates a (-1) st)"
  let ?s2 = "snd (ChangeMates b (-1) ?s1)"
  let ?s3 = "snd (ChangeMates ?e1 ?e2 ?s2)"
  let ?s4 = "snd (ChangeMates ?e2 ?e1 ?s3)"
  have "length (mate_stack ?s1) = Suc (length (mate_stack st))"
    using assms by (rule ChangeMates_first_push)
  moreover have "length (mate_stack ?s1) \<le> length (mate_stack ?s2)"
    by (rule ChangeMates_stack_mono)
  moreover have "length (mate_stack ?s2) \<le> length (mate_stack ?s3)"
    by (rule ChangeMates_stack_mono)
  moreover have "length (mate_stack ?s3) \<le> length (mate_stack ?s4)"
    by (rule ChangeMates_stack_mono)
  ultimately have "length (mate_stack st) < length (mate_stack ?s4)" by linarith
  then show ?thesis by (simp only: united_def Let_def)
qed

lemma UniteMates_early:
  "mates st ! nat a = -1 \<or> mates st ! nat b = -1 \<or> (a = mates st ! nat b \<and> b = mates st ! nat a)
   \<Longrightarrow> UniteMates t a b st = (False, st)"
  unfolding UniteMates_def Let_def
  by (simp only: split: if_split) blast

lemma UniteMates_late:
  "\<not> (mates st ! nat a = -1 \<or> mates st ! nat b = -1 \<or> (a = mates st ! nat b \<and> b = mates st ! nat a))
   \<Longrightarrow> snd (UniteMates t a b st) = united a b st"
  unfolding UniteMates_def united_def Let_def
  by (simp only: snd_conv if_distrib [of snd] split: if_split) blast

lemma mates_wf_entry:
  "mates_wf n m \<Longrightarrow> valid_key n a \<Longrightarrow> m ! nat a \<noteq> -1 \<Longrightarrow>
     valid_key n (m ! nat a) \<and> m ! nat (m ! nat a) = a"
  unfolding mates_wf_def valid_key_def
  by (metis atLeastLessThan_iff int_nat_eq le0 nat_less_iff)

lemma united_at_key1:
  assumes wf: "mates_wf n (mates st)" and a: "valid_key n a" and b: "valid_key n b"
    and e1: "mates st ! nat a \<noteq> -1" and e2: "mates st ! nat b \<noteq> -1"
    and nc: "\<not> (a = mates st ! nat b \<and> b = mates st ! nat a)"
  shows "mates (united a b st) ! nat a = -1 \<longleftrightarrow> mates st ! nat a \<noteq> a"
proof -
  let ?m = "mates st"
  let ?e1 = "?m ! nat a" and ?e2 = "?m ! nat b"
  have len: "length ?m = n" using wf by (simp add: mates_wf_def)
  have v1: "valid_key n ?e1" and s1: "?m ! nat ?e1 = a"
    using mates_wf_entry [OF wf a e1] by simp_all
  have v2: "valid_key n ?e2" and s2: "?m ! nat ?e2 = b"
    using mates_wf_entry [OF wf b e2] by simp_all
  have ne: "?e2 \<noteq> a"
  proof
    assume h: "?e2 = a"
    then have "?m ! nat a = b" using s2 by simp
    with h nc show False by simp
  qed
  have na: "nat a < n" "nat b < n" "nat ?e1 < n" "nat ?e2 < n"
    using a b v1 v2 by (auto simp: valid_key_def)
  have neq: "nat ?e2 \<noteq> nat a" using ne a v2 by (auto simp: valid_key_def)
  have eq1: "nat ?e1 = nat a \<longleftrightarrow> ?e1 = a" using a v1 by (auto simp: valid_key_def)
  show ?thesis
    using len na neq eq1 e2 by (auto simp: united_mates nth_list_update)
qed

lemma nth_upd4:
  "length m = n \<Longrightarrow> ia < n \<Longrightarrow> ib < n \<Longrightarrow> i1 < n \<Longrightarrow> i2 < n \<Longrightarrow> c < n \<Longrightarrow>
   m[ia := x, ib := y, i1 := z, i2 := w] ! c =
     (if c = i2 then w else if c = i1 then z else if c = ib then y else if c = ia then x else m ! c)"
  by (simp add: nth_list_update)

lemma valid_key_nat: "valid_key n k \<Longrightarrow> nat k < n \<and> int (nat k) = k"
  by (auto simp: valid_key_def)

lemma united_wf:
  assumes wf: "mates_wf n (mates st)" and a: "valid_key n a" and b: "valid_key n b"
    and e1: "mates st ! nat a \<noteq> -1" and e2: "mates st ! nat b \<noteq> -1"
    and nc: "\<not> (a = mates st ! nat b \<and> b = mates st ! nat a)"
  shows "mates_wf n (mates (united a b st))"
proof -
  define m where "m = mates st"
  define ia ib where "ia = nat a" and "ib = nat b"
  define i1 i2 where "i1 = nat (m ! ia)" and "i2 = nat (m ! ib)"
  define m4 where "m4 = m[ia := -1, ib := -1, i1 := m ! ib, i2 := m ! ia]"
  have len: "length m = n" using wf by (simp add: mates_wf_def m_def)
  have wfm: "\<And>c. c < n \<Longrightarrow> m ! c = -1 \<or> (0 \<le> m ! c \<and> m ! c < int n \<and> m ! nat (m ! c) = int c)"
    using wf by (simp add: mates_wf_def m_def)
  have ia: "ia < n" "int ia = a" using valid_key_nat [OF a] by (simp_all add: ia_def ib_def)
  have ib: "ib < n" "int ib = b" using valid_key_nat [OF b] by (simp_all add: ia_def ib_def)
  have ea: "m ! ia \<noteq> -1" using e1 by (simp add: m_def ia_def ib_def)
  have eb: "m ! ib \<noteq> -1" using e2 by (simp add: m_def ia_def ib_def)
  have i1: "i1 < n" "int i1 = m ! ia" "m ! i1 = int ia"
    using wfm [OF ia(1)] ea by (auto simp: i1_def i2_def)
  have i2: "i2 < n" "int i2 = m ! ib" "m ! i2 = int ib"
    using wfm [OF ib(1)] eb by (auto simp: i1_def i2_def)
  have nc': "\<not> (ia = i2 \<and> ib = i1)"
  proof
    assume h: "ia = i2 \<and> ib = i1"
    have p: "a = m ! ib" using h ia(2) i2(2) by metis
    have q: "b = m ! ia" using h ib(2) i1(2) by metis
    show False using nc p q unfolding m_def ia_def ib_def by blast
  qed
  have ne_a2: "ia \<noteq> i2"
  proof
    assume h: "ia = i2"
    have "m ! ia = int ib" using i2(3) unfolding h .
    then have "i1 = ib" using i1(2) by simp
    with h nc' show False by simp
  qed
  have ne_b1: "ib \<noteq> i1"
  proof
    assume h: "ib = i1"
    have "m ! ib = int ia" using i1(3) unfolding h .
    then have "i2 = ia" using i2(2) by simp
    with h nc' show False by simp
  qed
  have upd: "m4 ! c =
     (if c = i2 then m ! ia else if c = i1 then m ! ib else if c = ib then -1
      else if c = ia then -1 else m ! c)" if "c < n" for c
    unfolding m4_def by (rule nth_upd4 [OF len ia(1) ib(1) i1(1) i2(1) that])
  have "m4 ! c = -1 \<or> (0 \<le> m4 ! c \<and> m4 ! c < int n \<and> m4 ! nat (m4 ! c) = int c)"
    if c: "c < n" for c
  proof -
    consider (e2) "c = i2" | (e1) "c \<noteq> i2" "c = i1"
      | (b) "c \<noteq> i2" "c \<noteq> i1" "c = ib"
      | (a) "c \<noteq> i2" "c \<noteq> i1" "c \<noteq> ib" "c = ia"
      | (o) "c \<noteq> i2" "c \<noteq> i1" "c \<noteq> ib" "c \<noteq> ia"
      by blast
    then show ?thesis
    proof cases
      case e2
      have A: "m4 ! c = int i1" using upd [OF c] e2 i1(2) by simp
      have B: "m4 ! i1 = int i2" using upd [OF i1(1)] i1(2) i2(2) by simp
      show ?thesis unfolding A using B e2 i1(1) by simp
    next
      case e1
      have A: "m4 ! c = int i2" using upd [OF c] e1 i2(2) by simp
      have B: "m4 ! i2 = int i1" using upd [OF i2(1)] i1(2) by simp
      show ?thesis unfolding A using B e1 i2(1) by simp
    next
      case b
      then have "m4 ! c = -1" using upd [OF c] by simp
      then show ?thesis by simp
    next
      case a
      then have "m4 ! c = -1" using upd [OF c] by simp
      then show ?thesis by simp
    next
      case o
      then have same: "m4 ! c = m ! c" using upd [OF c] by simp
      show ?thesis
      proof (cases "m ! c = -1")
        case True
        with same show ?thesis by simp
      next
        case False
        with wfm [OF c] have d: "0 \<le> m ! c" "m ! c < int n" "m ! nat (m ! c) = int c" by auto
        define d' where "d' = nat (m ! c)"
        have dn: "d' < n" "int d' = m ! c" "m ! d' = int c" using d by (simp_all add: d'_def)
        have "d' \<noteq> ia"
        proof
          assume h: "d' = ia"
          have "m ! ia = int c" using dn(3) unfolding h .
          then have "i1 = c" using i1(2) by simp
          with o(2) show False by simp
        qed
        moreover have "d' \<noteq> ib"
        proof
          assume h: "d' = ib"
          have "m ! ib = int c" using dn(3) unfolding h .
          then have "i2 = c" using i2(2) by simp
          with o(1) show False by simp
        qed
        moreover have "d' \<noteq> i1"
        proof
          assume h: "d' = i1"
          have "int ia = int c" using dn(3) unfolding h i1(3) .
          with o(4) show False by simp
        qed
        moreover have "d' \<noteq> i2"
        proof
          assume h: "d' = i2"
          have "int ib = int c" using dn(3) unfolding h i2(3) .
          with o(3) show False by simp
        qed
        ultimately have "m4 ! d' = m ! d'"
          using upd [OF dn(1)] by simp
        then have "m4 ! nat (m4 ! c) = int c" unfolding same using dn(3) by (simp add: d'_def)
        with same d show ?thesis by simp
      qed
    qed
  qed
  moreover have "length m4 = n" using len by (simp add: m4_def)
  moreover have "mates (united a b st) = m4"
    by (simp add: united_mates m4_def i1_def i2_def ia_def ib_def m_def)
  ultimately show ?thesis by (simp add: mates_wf_def)
qed

lemma UniteMates_wf:
  assumes "mates_wf n (mates st)" "valid_key n a" "valid_key n b"
  shows "mates_wf n (mates (snd (UniteMates t a b st)))"
proof (cases "mates st ! nat a = -1 \<or> mates st ! nat b = -1 \<or> (a = mates st ! nat b \<and> b = mates st ! nat a)")
  case True
  have "snd (UniteMates t a b st) = st"
    by (simp only: UniteMates_early [OF True] snd_conv)
  with assms show ?thesis by simp
next
  case False
  then have "snd (UniteMates t a b st) = united a b st" by (rule UniteMates_late)
  moreover have "mates_wf n (mates (united a b st))"
    using assms False by (intro united_wf) blast+
  ultimately show ?thesis by simp
qed

lemma valid_key_nat_eq:
  "valid_key n x \<Longrightarrow> valid_key n y \<Longrightarrow> nat x = nat y \<longleftrightarrow> x = y"
  by (simp add: valid_key_def eq_nat_nat_iff)

lemma united_at_key2:
  assumes wf: "mates_wf n (mates st)" and a: "valid_key n a" and b: "valid_key n b"
    and e1: "mates st ! nat a \<noteq> -1" and e2: "mates st ! nat b \<noteq> -1"
    and nc: "\<not> (a = mates st ! nat b \<and> b = mates st ! nat a)"
  shows "mates (united a b st) ! nat b = -1 \<longleftrightarrow> mates st ! nat b \<noteq> b"
proof -
  let ?m = "mates st"
  let ?e1 = "?m ! nat a" and ?e2 = "?m ! nat b"
  have len: "length ?m = n" using wf by (simp add: mates_wf_def)
  have v1: "valid_key n ?e1" and s1: "?m ! nat ?e1 = a"
    using mates_wf_entry [OF wf a e1] by simp_all
  have v2: "valid_key n ?e2" and s2: "?m ! nat ?e2 = b"
    using mates_wf_entry [OF wf b e2] by simp_all
  have ne: "?e1 \<noteq> b"
  proof
    assume h: "?e1 = b"
    have "?m ! nat b = a" using s1 unfolding h .
    with h nc show False by metis
  qed
  have na: "nat a < n" "nat b < n" "nat ?e1 < n" "nat ?e2 < n"
    using a b v1 v2 by (auto simp: valid_key_def)
  have neq: "nat ?e1 \<noteq> nat b" using ne b v1 by (auto simp: valid_key_def)
  have eq1: "nat ?e2 = nat b \<longleftrightarrow> ?e2 = b" using b v2 by (auto simp: valid_key_def)
  have "mates (united a b st) ! nat b =
          (if nat b = nat ?e2 then ?e1 else if nat b = nat ?e1 then ?e2
           else if nat b = nat b then -1 else if nat b = nat a then -1 else ?m ! nat b)"
    unfolding united_mates by (rule nth_upd4 [OF len na(1) na(2) na(3) na(4) na(2)])
  then show ?thesis using neq eq1 e1 by (auto split: if_splits)
qed

lemma united_far_ends:
  assumes wf: "mates_wf n (mates st)" and a: "valid_key n a" and b: "valid_key n b"
    and e1: "mates st ! nat a \<noteq> -1" and e2: "mates st ! nat b \<noteq> -1"
  shows "mates (united a b st) ! nat (mates st ! nat a) = mates st ! nat b \<and>
         mates (united a b st) ! nat (mates st ! nat b) = mates st ! nat a"
proof -
  let ?m = "mates st"
  let ?e1 = "?m ! nat a" and ?e2 = "?m ! nat b"
  have len: "length ?m = n" using wf by (simp add: mates_wf_def)
  have v1: "valid_key n ?e1" using mates_wf_entry [OF wf a e1] by simp
  have v2: "valid_key n ?e2" using mates_wf_entry [OF wf b e2] by simp
  have na: "nat a < n" "nat b < n" "nat ?e1 < n" "nat ?e2 < n"
    using a b v1 v2 by (auto simp: valid_key_def)
  have eq: "nat ?e1 = nat ?e2 \<longleftrightarrow> ?e1 = ?e2" using v1 v2 by (rule valid_key_nat_eq)
  have "mates (united a b st) ! nat ?e1 =
          (if nat ?e1 = nat ?e2 then ?e1 else if nat ?e1 = nat ?e1 then ?e2
           else if nat ?e1 = nat b then -1 else if nat ?e1 = nat a then -1 else ?m ! nat ?e1)"
    unfolding united_mates by (rule nth_upd4 [OF len na(1) na(2) na(3) na(4) na(3)])
  moreover have "mates (united a b st) ! nat ?e2 =
          (if nat ?e2 = nat ?e2 then ?e1 else if nat ?e2 = nat ?e1 then ?e2
           else if nat ?e2 = nat b then -1 else if nat ?e2 = nat a then -1 else ?m ! nat ?e2)"
    unfolding united_mates by (rule nth_upd4 [OF len na(1) na(2) na(3) na(4) na(4)])
  ultimately show ?thesis using eq by (auto split: if_splits)
qed

lemma UniteMates_fst_late:
  assumes "\<not> (mates st ! nat a = -1 \<or> mates st ! nat b = -1 \<or> (a = mates st ! nat b \<and> b = mates st ! nat a))"
  shows "fst (UniteMates t a b st) \<longleftrightarrow>
     \<not> ((mates (united a b st) ! nat a = -1 \<and> 0 < t ! nat a) \<or>
        (mates (united a b st) ! nat b = -1 \<and> 0 < t ! nat b) \<or>
        (0 < t ! nat (mates st ! nat a) \<and> 0 < t ! nat (mates st ! nat b) \<and>
         t ! nat (mates st ! nat a) \<noteq> t ! nat (mates st ! nat b)))"
  using assms unfolding UniteMates_def united_def Let_def
  by (simp only: fst_conv if_distrib [of fst] split: if_split) blast

lemma united_stack_mono: "length (mate_stack st) \<le> length (mate_stack (united a b st))"
  unfolding united_def Let_def
  by (intro le_trans [OF _ ChangeMates_stack_mono]) simp

lemma UniteMates_stack_mono:
  "length (mate_stack st) \<le> length (mate_stack (snd (UniteMates t a b st)))"
  using UniteMates_cases [of t a b st] united_stack_mono [of st a b] by auto

lemma RevertMates_stack_length:
  "length (mate_stack (RevertMates k st)) = min k (length (mate_stack st))"
proof (induction k st rule: RevertMates.induct)
  case (1 k st)
  show ?case
  proof (cases "k < length (mate_stack st)")
    case True
    then show ?thesis using 1 by (subst RevertMates.simps) (auto simp: min_def)
  next
    case False
    then show ?thesis by (subst RevertMates.simps) simp
  qed
qed

lemma RevertMates_RevertMates:
  "k \<le> k' \<Longrightarrow> RevertMates k (RevertMates k' st) = RevertMates k st"
proof (induction k' st rule: RevertMates.induct)
  case (1 k' st)
  show ?case
  proof (cases "k' < length (mate_stack st)")
    case True
    let ?st1 = "st\<lparr>mates := (mates st)[nat (fst (hd (mate_stack st))) := snd (hd (mate_stack st))],
                mate_stack := tl (mate_stack st)\<rparr>"
    have a: "RevertMates k' st = RevertMates k' ?st1"
      using True by (subst RevertMates.simps) simp
    have b: "RevertMates k st = RevertMates k ?st1"
      using True 1(2) by (subst RevertMates.simps) simp
    show ?thesis unfolding a b using 1(1) [OF True 1(2)] .
  next
    case False
    then have "RevertMates k' st = st" by (simp add: RevertMates_noop)
    then show ?thesis by simp
  qed
qed

lemma RevertMates_unite_all:
  "k \<le> length (mate_stack st) \<Longrightarrow> RevertMates k (unite_all t ps st) = RevertMates k st"
proof (induction ps arbitrary: st)
  case Nil
  then show ?case by simp
next
  case (Cons p ps)
  obtain a b where p: "p = (a, b)" by (cases p)
  have "k \<le> length (mate_stack (snd (UniteMates t a b st)))"
    using Cons.prems UniteMates_stack_mono [of st t a b] by linarith
  then have "RevertMates k (unite_all t ps (snd (UniteMates t a b st))) =
             RevertMates k (snd (UniteMates t a b st))"
    by (rule Cons.IH)
  then show ?case using Cons.prems by (simp add: p RevertMates_UniteMates)
qed

lemma init_mates_gen:
  "length m = n \<Longrightarrow> k \<le> n \<Longrightarrow>
   init_mates (int n) (int k) m = take k m @ map int [k..<n]"
proof (induction "n - k" arbitrary: k m)
  case 0
  then have "k = n" by simp
  then show ?case using 0 by (subst init_mates.simps) simp
next
  case (Suc d)
  then have lt: "k < n" by simp
  have ih: "init_mates (int n) (int (Suc k)) (m[k := int k]) =
            take (Suc k) (m[k := int k]) @ map int [Suc k..<n]"
    using Suc lt by (intro Suc.hyps(1)) simp_all
  have t: "take (Suc k) (m[k := int k]) = take k m @ [int k]"
    using lt Suc.prems(1) by (simp add: take_Suc_conv_app_nth)
  have u: "[k..<n] = k # [Suc k..<n]"
    using lt by (simp add: upt_conv_Cons)
  have "init_mates (int n) (int k) m = init_mates (int n) (int k + 1) (m[nat (int k) := int k])"
    using lt by (subst init_mates.simps) simp
  also have "\<dots> = init_mates (int n) (int (Suc k)) (m[k := int k])"
    by (simp add: add.commute)
  finally show ?case unfolding ih t u by simp
qed

lemma init_mates_eq: "init_mates (int n) 0 (replicate n 0) = map int [0..<n]"
  using init_mates_gen [of "replicate n 0" n 0] by simp

lemma mates_wf_init: "mates_wf n (init_mates (int n) 0 (replicate n 0))"
  by (simp add: mates_wf_def init_mates_eq)

lemma dropWhile_marks:
  assumes "sorted_wrt (\<ge>) marks" "mark \<in> set marks" "mk \<in> set (dropWhile (\<lambda>x. x \<noteq> mark) marks)"
  shows "mk \<le> (mark::nat) \<and> mk \<in> set marks"
proof -
  obtain rest where r: "dropWhile (\<lambda>x. x \<noteq> mark) marks = mark # rest"
    using assms(2) by (metis (mono_tags, lifting) dropWhile_eq_Nil_conv hd_dropWhile list.exhaust_sel)
  have "sorted_wrt (\<ge>) (dropWhile (\<lambda>x. x \<noteq> mark) marks)"
    using assms(1) by (metis sorted_wrt_append takeWhile_dropWhile_id)
  then have "\<forall>x \<in> set rest. x \<le> mark" unfolding r by simp
  moreover have "mk \<in> set marks" using assms(3) by (rule set_dropWhileD)
  ultimately show ?thesis using assms(3) r by auto
qed

lemma reachable_inv: "reachable tbl n c \<Longrightarrow> reach_inv n c"
proof (induction rule: reachable.induct)
  case init
  show ?case by (simp add: reach_inv_def mates_wf_init)
next
  case (unite st marks a b)
  have "mates_wf n (mates (snd (UniteMates tbl a b st)))"
    using unite by (intro UniteMates_wf) (simp_all add: reach_inv_def)
  moreover have "mk \<le> length (mate_stack (snd (UniteMates tbl a b st))) \<and>
        mates_wf n (mates (RevertMates mk (snd (UniteMates tbl a b st))))"
    if "mk \<in> set marks" for mk
  proof -
    have le: "mk \<le> length (mate_stack st)" and w: "mates_wf n (mates (RevertMates mk st))"
      using unite.IH that by (auto simp: reach_inv_def)
    show ?thesis
      using le w UniteMates_stack_mono [of st tbl a b] by (simp add: RevertMates_UniteMates)
  qed
  ultimately show ?case using unite.IH by (simp add: reach_inv_def)
next
  case (checkpoint st marks)
  then show ?case by (auto simp: reach_inv_def RevertMates_noop)
next
  case (rollback st marks mark)
  have inv: "sorted_wrt (\<ge>) marks" "mates_wf n (mates st)"
    "\<And>mk. mk \<in> set marks \<Longrightarrow> mk \<le> length (mate_stack st) \<and> mates_wf n (mates (RevertMates mk st))"
    using rollback.IH by (auto simp: reach_inv_def)
  have s: "sorted_wrt (\<ge>) (dropWhile (\<lambda>x. x \<noteq> mark) marks)"
    using inv(1) by (metis sorted_wrt_append takeWhile_dropWhile_id)
  have w: "mates_wf n (mates (RevertMates mark st))" using inv(3) [OF rollback.hyps(2)] by simp
  have "mk \<le> length (mate_stack (RevertMates mark st)) \<and>
        mates_wf n (mates (RevertMates mk (RevertMates mark st)))"
    if "mk \<in> set (dropWhile (\<lambda>x. x \<noteq> mark) marks)" for mk
  proof -
    have le: "mk \<le> mark" and mem: "mk \<in> set marks"
      using dropWhile_marks [OF inv(1) rollback.hyps(2) that] by simp_all
    show ?thesis
      using le inv(3) [OF mem] by (simp add: RevertMates_RevertMates RevertMates_stack_length)
  qed
  then show ?case using s w by (simp add: reach_inv_def)
qed

section \<open>Claims about the table of mates\<close>

text \<open>
  Claim C10. When \<open>UniteMates\<close> fails because one of the two cells is already closed or
  because the two cells are the two ends of one chain, it returns before any
  \<open>ChangeMates\<close> call: the whole state (table of mates and history) is the one at entry.
  When it fails later, the four changes are applied and recorded (the history is strictly
  longer), and the failure is one of the three checks made after the changes: a numbered
  cell that became a branch, or two different numbers at the two far ends.
\<close>

theorem UniteMates_early_failure_atomic:
  "(mates st ! nat a = -1 \<or> mates st ! nat b = -1 \<or>
      (a = mates st ! nat b \<and> b = mates st ! nat a)
     \<longrightarrow> UniteMates tbl a b st = (False, st)) \<and>
   (\<not> (mates st ! nat a = -1 \<or> mates st ! nat b = -1 \<or>
        (a = mates st ! nat b \<and> b = mates st ! nat a)) \<and>
    \<not> fst (UniteMates tbl a b st)
     \<longrightarrow> length (mate_stack st) < length (mate_stack (snd (UniteMates tbl a b st))) \<and>
         mates (snd (UniteMates tbl a b st)) =
           (mates st)[nat a := -1, nat b := -1,
                      nat (mates st ! nat a) := mates st ! nat b,
                      nat (mates st ! nat b) := mates st ! nat a] \<and>
         ((mates (snd (UniteMates tbl a b st)) ! nat a = -1 \<and> 0 < tbl ! nat a) \<or>
          (mates (snd (UniteMates tbl a b st)) ! nat b = -1 \<and> 0 < tbl ! nat b) \<or>
          (0 < tbl ! nat (mates st ! nat a) \<and> 0 < tbl ! nat (mates st ! nat b) \<and>
           tbl ! nat (mates st ! nat a) \<noteq> tbl ! nat (mates st ! nat b))))"
proof (cases "mates st ! nat a = -1 \<or> mates st ! nat b = -1 \<or> (a = mates st ! nat b \<and> b = mates st ! nat a)")
  case True
  have "UniteMates tbl a b st = (False, st)" using True by (rule UniteMates_early)
  with True show ?thesis by blast
next
  case False
  have s: "snd (UniteMates tbl a b st) = united a b st" using False by (rule UniteMates_late)
  have "mates st ! nat a \<noteq> -1" using False by blast
  then have g: "length (mate_stack st) < length (mate_stack (united a b st))"
    by (rule united_stack_grows)
  show ?thesis
    unfolding s using False g UniteMates_fst_late [OF False, of tbl] united_mates [of a b st]
    by blast
qed

theorem UniteMates_early_failure_atomic_witness:
  "UniteMates [0, 0] 1 0 \<lparr>mates = [1, 0], mate_stack = [], memo = []\<rparr>
     = (False, \<lparr>mates = [1, 0], mate_stack = [], memo = []\<rparr>) \<and>
   length [(0, 0), (1, 1 :: int)] <
     length (mate_stack (snd (UniteMates [1, 0, 2] 2 1
        \<lparr>mates = [1, 0, 2], mate_stack = [(0, 0), (1, 1)], memo = []\<rparr>)))"
proof -
  have "\<not> fst (UniteMates [1, 0, 2] 2 1
            \<lparr>mates = [1, 0, 2], mate_stack = [(0, 0), (1, 1)], memo = []\<rparr>)"
    by (simp add: UniteMates_def ChangeMates_def Let_def)
  then show ?thesis
    using UniteMates_early_failure_atomic
            [of "\<lparr>mates = [1, 0], mate_stack = [], memo = []\<rparr>" 1 0 "[0, 0]"]
          UniteMates_early_failure_atomic
            [of "\<lparr>mates = [1, 0, 2], mate_stack = [(0, 0), (1, 1)], memo = []\<rparr>" 2 1 "[1, 0, 2]"]
    by simp
qed

text \<open>
  Claim C2, as stated: \<open>UniteMates\<close> fails whenever one of the two cells is labeled, that is
  carries a number other than 0, and already had a segment. The board of width 3 and height
  1 read from the numbers 200, 200, 200 stores the cell number \<open>-56\<close> in every cell. The
  search first connects the cells 1 and 0; then \<open>UniteMates(2, 1)\<close> returns true, although
  cell 1 carries a number other than 0 and its entry was already another cell: the checks
  of \<open>UniteMates\<close> test \<open>0 < table_[...]\<close>.
\<close>

theorem UniteMates_fails_iff_counterexample:
  "case NumberLink 3 1 of
     Inl e \<Rightarrow> False
   | Inr nl \<Rightarrow>
       (case Initialize nl of
          None \<Rightarrow> False
        | Some (B0, st0) \<Rightarrow>
            (case read_cells B0 0 0 [200, 200, 200] of
               None \<Rightarrow> False
             | Some B \<Rightarrow>
                 (case UniteMates (table B) 1 0 st0 of
                    (united_left, st1) \<Rightarrow>
                      united_left \<and> table B = [-56, -56, -56] \<and> mates st1 = [1, 0, 2] \<and>
                      table B ! nat 1 \<noteq> 0 \<and> mates st1 ! nat 1 \<noteq> 1 \<and>
                      fst (UniteMates (table B) 2 1 st1))))"
  by code_simp

text \<open>
  Claim C2, amended. On a well-formed table of mates (the symmetry invariant), for keys \<open>a\<close>
  and \<open>b\<close> of the board and any cell numbers, \<open>UniteMates a b\<close> returns false exactly when
  (i) one of the two cells is closed, or (ii) they are the two ends of one chain, or (iii)
  one of them carries a positive number and already had a segment (its entry was not
  itself), or (iv) the two far ends carry positive numbers that differ. A cell with a
  negative number is treated as a blank cell. When it returns true, the table is the old
  one with \<open>a\<close> and \<open>b\<close> marked closed and then the two far ends linked to each other.
  Whatever it returns, reverting to the history length at entry restores the state at entry.
\<close>

theorem UniteMates_fails_iff:
  assumes wf: "mates_wf n (mates st)" and a: "valid_key n a" and b: "valid_key n b"
  shows "(\<not> fst (UniteMates tbl a b st) \<longleftrightarrow>
            (mates st ! nat a = -1 \<or> mates st ! nat b = -1) \<or>
            (mates st ! nat a = b \<and> mates st ! nat b = a) \<or>
            (0 < tbl ! nat a \<and> mates st ! nat a \<noteq> a) \<or>
            (0 < tbl ! nat b \<and> mates st ! nat b \<noteq> b) \<or>
            (0 < tbl ! nat (mates st ! nat a) \<and> 0 < tbl ! nat (mates st ! nat b) \<and>
             tbl ! nat (mates st ! nat a) \<noteq> tbl ! nat (mates st ! nat b))) \<and>
         (fst (UniteMates tbl a b st) \<longrightarrow>
            mates (snd (UniteMates tbl a b st)) =
              (mates st)[nat a := -1, nat b := -1,
                         nat (mates st ! nat a) := mates st ! nat b,
                         nat (mates st ! nat b) := mates st ! nat a] \<and>
            mates (snd (UniteMates tbl a b st)) ! nat (mates st ! nat a) = mates st ! nat b \<and>
            mates (snd (UniteMates tbl a b st)) ! nat (mates st ! nat b) = mates st ! nat a) \<and>
         RevertMates (length (mate_stack st)) (snd (UniteMates tbl a b st)) = st"
proof -
  let ?e1 = "mates st ! nat a" and ?e2 = "mates st ! nat b"
  let ?early = "?e1 = -1 \<or> ?e2 = -1 \<or> (a = ?e2 \<and> b = ?e1)"
  have rb: "RevertMates (length (mate_stack st)) (snd (UniteMates tbl a b st)) = st"
    by (simp add: RevertMates_UniteMates RevertMates_noop)
  show ?thesis
  proof (cases ?early)
    case True
    have "UniteMates tbl a b st = (False, st)" using True by (rule UniteMates_early)
    then have "\<not> fst (UniteMates tbl a b st)" by simp
    moreover have "(?e1 = -1 \<or> ?e2 = -1) \<or> (?e1 = b \<and> ?e2 = a)" using True by metis
    ultimately show ?thesis using rb by blast
  next
    case False
    have ne: "?e1 \<noteq> -1" "?e2 \<noteq> -1" using False by blast+
    have k1: "mates (united a b st) ! nat a = -1 \<longleftrightarrow> ?e1 \<noteq> a"
      using wf a b ne False by (intro united_at_key1) blast+
    have k2: "mates (united a b st) ! nat b = -1 \<longleftrightarrow> ?e2 \<noteq> b"
      using wf a b ne False by (intro united_at_key2) blast+
    have f: "fst (UniteMates tbl a b st) \<longleftrightarrow>
       \<not> ((?e1 \<noteq> a \<and> 0 < tbl ! nat a) \<or> (?e2 \<noteq> b \<and> 0 < tbl ! nat b) \<or>
          (0 < tbl ! nat ?e1 \<and> 0 < tbl ! nat ?e2 \<and> tbl ! nat ?e1 \<noteq> tbl ! nat ?e2))"
      unfolding UniteMates_fst_late [OF False] k1 k2 ..
    have s: "snd (UniteMates tbl a b st) = united a b st" using False by (rule UniteMates_late)
    have ends: "mates (united a b st) ! nat ?e1 = ?e2 \<and> mates (united a b st) ! nat ?e2 = ?e1"
      using wf a b ne by (rule united_far_ends)
    have nocyc: "\<not> (?e1 = b \<and> ?e2 = a)" using False by metis
    show ?thesis
      unfolding s f using ne nocyc ends rb [unfolded s] united_mates [of a b st] by blast
  qed
qed

theorem UniteMates_fails_iff_witness:
  "fst (UniteMates [1, 0, 1] 1 0 \<lparr>mates = [0, 1, 2], mate_stack = [], memo = []\<rparr>) \<and>
   \<not> fst (UniteMates [1, 0, 2] 2 1
            \<lparr>mates = [1, 0, 2], mate_stack = [(0, 0), (1, 1)], memo = []\<rparr>) \<and>
   \<not> fst (UniteMates [0, 1, 0] 2 1
            \<lparr>mates = [1, 0, 2], mate_stack = [(0, 0), (1, 1)], memo = []\<rparr>) \<and>
   fst (UniteMates [0, -56, 0] 2 1
            \<lparr>mates = [1, 0, 2], mate_stack = [(0, 0), (1, 1)], memo = []\<rparr>)"
proof -
  let ?s = "\<lparr>mates = [0, 1, 2], mate_stack = [], memo = []\<rparr>"
  let ?s' = "\<lparr>mates = [1, 0, 2], mate_stack = [(0, 0), (1, 1)], memo = []\<rparr>"
  have wf: "mates_wf 3 (mates ?s)" "mates_wf 3 (mates ?s')" by (simp_all add: mates_wf_def) code_simp+
  have k: "valid_key 3 1" "valid_key 3 0" "valid_key 3 2" by (simp_all add: valid_key_def)
  show ?thesis
    using UniteMates_fails_iff [OF wf(1) k(1) k(2), of "[1, 0, 1]"]
          UniteMates_fails_iff [OF wf(2) k(3) k(1), of "[1, 0, 2]"]
          UniteMates_fails_iff [OF wf(2) k(3) k(1), of "[0, 1, 0]"]
          UniteMates_fails_iff [OF wf(2) k(3) k(1), of "[0, -56, 0]"]
    by simp
qed

text \<open>
  Claim C5. Rollback exactness: after any sequence of \<open>UniteMates\<close> calls, successful or
  not, reverting to the history length recorded before the first call gives back the
  state at that moment, the whole table of mates included. (For keys outside the table
  the source is undefined; the statement is about the keys of the board.)
\<close>

theorem rollback_exact:
  "RevertMates (length (mate_stack st)) (unite_all tbl ps st) = st"
  by (simp add: RevertMates_unite_all RevertMates_noop)

theorem rollback_exact_witness:
  "RevertMates 0 (unite_all [0, 0, 0] [(1, 0), (2, 1), (2, 0)]
       \<lparr>mates = [0, 1, 2], mate_stack = [], memo = []\<rparr>)
     = \<lparr>mates = [0, 1, 2], mate_stack = [], memo = []\<rparr>"
  using rollback_exact [of "\<lparr>mates = [0, 1, 2], mate_stack = [], memo = []\<rparr>"
                          "[0, 0, 0]" "[(1, 0), (2, 1), (2, 0)]"]
  by simp

text \<open>
  Claim C6. Symmetry invariant: in every state reached from the initial table by merges
  (successful or failed), checkpoints and rollbacks to live checkpoints, every cell whose
  entry is not the closed sentinel is pointed back at by the cell it points to.
\<close>

theorem symmetry_invariant:
  assumes "reachable tbl n (st, marks)"
  shows "\<forall>c \<in> {0..<n}. mates st ! c \<noteq> -1 \<longrightarrow> mates st ! nat (mates st ! c) = int c"
  using reachable_inv [OF assms] by (auto simp: reach_inv_def mates_wf_def)

theorem symmetry_invariant_witness:
  "mates (snd (UniteMates [0, 0] 1 0
       \<lparr>mates = init_mates (int 2) 0 (replicate 2 0), mate_stack = [],
          memo = replicate 2 (Map.empty :: Hash \<rightharpoonup> nat)\<rparr>)) !
     nat (mates (snd (UniteMates [0, 0] 1 0
       \<lparr>mates = init_mates (int 2) 0 (replicate 2 0), mate_stack = [],
          memo = replicate 2 (Map.empty :: Hash \<rightharpoonup> nat)\<rparr>)) ! 0) = 0"
proof -
  let ?s0 = "\<lparr>mates = init_mates (int 2) 0 (replicate 2 0), mate_stack = [],
              memo = replicate 2 (Map.empty :: Hash \<rightharpoonup> nat)\<rparr>"
  let ?s1 = "snd (UniteMates [0, 0] 1 0 ?s0)"
  have "reachable [0, 0] 2 (?s0, [])" by (rule reachable.init)
  then have r: "reachable [0, 0] 2 (?s1, [])"
    by (rule reachable.unite) (simp_all add: valid_key_def)
  have m0: "mates ?s0 = [0, 1]" using init_mates_eq [of 2] by (simp add: upt_rec)
  have e0: "mates ?s1 ! 0 \<noteq> -1"
    using m0 by (simp add: UniteMates_def ChangeMates_def Let_def)
  have "(0::nat) \<in> {0..<2}" by simp
  from bspec [OF symmetry_invariant [OF r] this] e0 show ?thesis by simp
qed

section \<open>Facts about the cell order\<close>

lemma tri_step: "tri (d + 1) = tri d + (d + 1)"
proof -
  have "(d + 1) * (d + 1 + 1) = d * (d + 1) + 2 * (d + 1)" by (simp add: algebra_simps)
  then show ?thesis by (simp add: tri_def)
qed

lemma tri_0: "tri 0 = 0" by (simp add: tri_def)

lemma tri_mono_aux: "0 \<le> d \<Longrightarrow> tri d + int n * d \<le> tri (d + int n)"
proof (induction n)
  case 0
  then show ?case by simp
next
  case (Suc n)
  have "d + int (Suc n) = (d + int n) + 1" by simp
  then have "tri (d + int (Suc n)) = tri (d + int n) + (d + int n + 1)"
    using tri_step [of "d + int n"] by (simp only:)
  then show ?case using Suc by (simp add: algebra_simps)
qed

lemma tri_nonneg: "0 \<le> d \<Longrightarrow> 0 \<le> tri d"
  using tri_mono_aux [of 0 "nat d"] by (simp add: tri_0)

lemma tri_less: "0 \<le> d \<Longrightarrow> d < e \<Longrightarrow> tri d + d < tri e"
proof -
  assume d: "0 \<le> d" and lt: "d < e"
  define n where "n = nat (e - (d + 1))"
  have e: "e = (d + 1) + int n" using lt by (simp add: n_def)
  have "tri (d + 1) + int n * (d + 1) \<le> tri e"
    unfolding e using d by (intro tri_mono_aux) simp
  moreover have "0 \<le> int n * (d + 1)" using d by simp
  ultimately show ?thesis using tri_step [of d] by linarith
qed

lemma diag_rank_less_iff:
  assumes "0 \<le> x1" "0 \<le> y1" "0 \<le> x2" "0 \<le> y2"
  shows "diag_rank x1 y1 < diag_rank x2 y2 \<longleftrightarrow>
           x1 + y1 < x2 + y2 \<or> (x1 + y1 = x2 + y2 \<and> x1 > x2)"
proof -
  consider (lt) "x1 + y1 < x2 + y2" | (eq) "x1 + y1 = x2 + y2" | (gt) "x2 + y2 < x1 + y1"
    by linarith
  then show ?thesis
  proof cases
    case lt
    have "tri (x1 + y1) + (x1 + y1) < tri (x2 + y2)" using assms lt by (intro tri_less) simp_all
    then show ?thesis using lt assms by (simp add: diag_rank_def)
  next
    case eq
    then show ?thesis by (auto simp: diag_rank_def)
  next
    case gt
    have "tri (x2 + y2) + (x2 + y2) < tri (x1 + y1)" using assms gt by (intro tri_less) simp_all
    then show ?thesis using gt assms by (simp add: diag_rank_def)
  qed
qed

lemma diag_rank_inj:
  assumes "0 \<le> x1" "0 \<le> y1" "0 \<le> x2" "0 \<le> y2" "diag_rank x1 y1 = diag_rank x2 y2"
  shows "x1 = x2 \<and> y1 = y2"
proof -
  have "\<not> diag_rank x1 y1 < diag_rank x2 y2" "\<not> diag_rank x2 y2 < diag_rank x1 y1"
    using assms(5) by simp_all
  then show ?thesis
    unfolding diag_rank_less_iff [OF assms(1-4)] diag_rank_less_iff [OF assms(3,4,1,2)]
    by linarith
qed

lemma diag_rank_nonneg: "0 \<le> x \<Longrightarrow> 0 \<le> y \<Longrightarrow> 0 \<le> diag_rank x y"
  using tri_nonneg [of "x + y"] by (simp add: diag_rank_def)

text \<open>One pass through the body of the do-while loop.\<close>

lemma diag_step_rank:
  assumes "0 \<le> x" "0 \<le> y"
  defines "x2 \<equiv> (if x - 1 < 0 then y + 1 else x - 1)"
      and "y2 \<equiv> (if x - 1 < 0 then 0 else y + 1)"
  shows "0 \<le> x2 \<and> 0 \<le> y2 \<and> diag_rank x2 y2 = diag_rank x y + 1"
proof (cases "x - 1 < 0")
  case True
  then have x0: "x = 0" using assms(1) by simp
  have "x2 = y + 1" "y2 = 0" using True by (simp_all add: x2_def y2_def)
  then show ?thesis using assms(2) x0 tri_step [of y] by (simp add: diag_rank_def)
next
  case False
  have "x2 = x - 1" "y2 = y + 1" using False by (simp_all add: x2_def y2_def)
  then show ?thesis using assms(2) False by (simp add: diag_rank_def)
qed

lemma next_cell_spec:
  assumes "0 \<le> x" "0 \<le> y" "in_grid w h tx ty" "diag_rank x y < diag_rank tx ty"
  shows "\<exists>x' y'. next_cell w h x y = Some (x', y') \<and> in_grid w h x' y' \<and>
           diag_rank x y < diag_rank x' y' \<and>
           (\<forall>u v. in_grid w h u v \<and> diag_rank x y < diag_rank u v \<longrightarrow>
                  diag_rank x' y' \<le> diag_rank u v)"
  using assms
proof (induction "nat (diag_rank tx ty - diag_rank x y)" arbitrary: x y rule: less_induct)
  case less
  define x2 where "x2 = (if x - 1 < 0 then y + 1 else x - 1)"
  define y2 where "y2 = (if x - 1 < 0 then 0 else y + 1)"
  have st: "0 \<le> x2" "0 \<le> y2" "diag_rank x2 y2 = diag_rank x y + 1"
    using diag_step_rank [OF less.prems(1,2)] by (simp_all add: x2_def y2_def)
  show ?case
  proof (cases "in_grid w h x2 y2")
    case True
    then have "next_cell w h x y = Some (x2, y2)"
      by (subst next_cell.simps) (simp add: Let_def x2_def y2_def in_grid_def not_le not_less)
    then show ?thesis using True st by auto
  next
    case False
    then have nc: "next_cell w h x y = next_cell w h x2 y2"
      by (subst next_cell.simps) (auto simp: Let_def x2_def y2_def in_grid_def)
    have t: "0 \<le> tx" "0 \<le> ty" using less.prems(3) by (simp_all add: in_grid_def)
    have "diag_rank x2 y2 \<noteq> diag_rank tx ty"
      using diag_rank_inj [OF st(1,2) t] False less.prems(3) by auto
    then have lt: "diag_rank x2 y2 < diag_rank tx ty" using st(3) less.prems(4) by linarith
    have "nat (diag_rank tx ty - diag_rank x2 y2) < nat (diag_rank tx ty - diag_rank x y)"
      using st(3) lt by linarith
    from less.hyps [OF this st(1,2) less.prems(3) lt]
    obtain x' y' where r: "next_cell w h x2 y2 = Some (x', y')" "in_grid w h x' y'"
      "diag_rank x2 y2 < diag_rank x' y'"
      "\<forall>u v. in_grid w h u v \<and> diag_rank x2 y2 < diag_rank u v \<longrightarrow> diag_rank x' y' \<le> diag_rank u v"
      by blast
    have "diag_rank x' y' \<le> diag_rank u v"
      if "in_grid w h u v" "diag_rank x y < diag_rank u v" for u v
    proof -
      have uv: "0 \<le> u" "0 \<le> v" using that(1) by (simp_all add: in_grid_def)
      have "diag_rank x2 y2 \<noteq> diag_rank u v"
        using diag_rank_inj [OF st(1,2) uv] False that(1) by auto
      then have "diag_rank x2 y2 < diag_rank u v" using st(3) that(2) by linarith
      then show ?thesis using r(4) that(1) by blast
    qed
    then show ?thesis using nc r st(3) by auto
  qed
qed

lemma pos_bound:
  assumes "in_grid w h x y"
  shows "0 \<le> y * w + x \<and> y * w + x < w * h"
proof -
  have b: "0 \<le> x" "x < w" "0 \<le> y" "y \<le> h - 1" using assms by (simp_all add: in_grid_def)
  have w: "0 \<le> w" using b by simp
  have "y * w \<le> (h - 1) * w" using b(4) w by (rule mult_right_mono)
  then have "y * w + x < w * h" using b(2) by (simp add: algebra_simps)
  moreover have "0 \<le> y * w" using b(3) w by simp
  ultimately show ?thesis using b(1) by simp
qed

lemma pos_inj:
  assumes "in_grid w h x1 y1" "in_grid w h x2 y2" "y1 * w + x1 = y2 * w + x2"
  shows "x1 = x2 \<and> y1 = y2"
proof -
  have b: "0 \<le> x1" "x1 < w" "0 \<le> x2" "x2 < w" using assms by (simp_all add: in_grid_def)
  have w: "0 \<le> w" using b by simp
  have "y1 = y2"
  proof (rule ccontr)
    assume "y1 \<noteq> y2"
    then consider "y1 + 1 \<le> y2" | "y2 + 1 \<le> y1" by linarith
    then show False
    proof cases
      case 1
      have "(y1 + 1) * w \<le> y2 * w" using 1 w by (rule mult_right_mono)
      then show False using assms(3) b by (simp add: algebra_simps)
    next
      case 2
      have "(y2 + 1) * w \<le> y1 * w" using 2 w by (rule mult_right_mono)
      then show False using assms(3) b by (simp add: algebra_simps)
    qed
  qed
  then show ?thesis using assms(3) by simp
qed

lemma grid_card:
  assumes "0 \<le> w" "0 \<le> h"
  shows "finite {p. in_grid w h (fst p) (snd p)} \<and> card {p. in_grid w h (fst p) (snd p)} = nat (w * h)"
proof -
  have "{p. in_grid w h (fst p) (snd p)} = {0..<w} \<times> {0..<h}"
    by (auto simp: in_grid_def)
  then show ?thesis using assms by (simp add: nat_mult_distrib)
qed

lemma exists_unassigned:
  assumes "0 \<le> w" "0 \<le> h" "k < nat (w * h)"
  shows "\<exists>u v. in_grid w h u v \<and> (\<forall>j<k. f j \<noteq> (u, v))"
proof -
  let ?G = "{p. in_grid w h (fst p) (snd p)}"
  have "card (f ` {..<k}) \<le> k" using card_image_le [of "{..<k}" f] by simp
  then have "card (f ` {..<k}) < card ?G" using assms grid_card [OF assms(1,2)] by simp
  then have "\<not> ?G \<subseteq> f ` {..<k}"
    using card_mono [of "f ` {..<k}" ?G] by auto
  then obtain p where "p \<in> ?G" "p \<notin> f ` {..<k}" by blast
  then show ?thesis by (intro exI [of _ "fst p"] exI [of _ "snd p"]) auto
qed

lemma all_assigned:
  assumes "0 \<le> w" "0 \<le> h" "inj_on f {..<nat (w * h)}"
    and "\<forall>j<nat (w * h). in_grid w h (fst (f j)) (snd (f j))" "in_grid w h u v"
  shows "\<exists>j<nat (w * h). f j = (u, v)"
proof -
  let ?G = "{p. in_grid w h (fst p) (snd p)}"
  have sub: "f ` {..<nat (w * h)} \<subseteq> ?G" using assms(4) by auto
  have "card (f ` {..<nat (w * h)}) = nat (w * h)" using assms(3) by (simp add: card_image)
  then have "f ` {..<nat (w * h)} = ?G"
    using grid_card [OF assms(1,2)] sub by (intro card_subset_eq) simp_all
  moreover have "(u, v) \<in> ?G" using assms(5) by simp
  ultimately show ?thesis by (metis (no_types, lifting) imageE lessThan_iff)
qed

lemma assign_keys_loop:
  assumes inv: "keys_inv w h B k" and k: "k < nat (w * h)" and xy: "in_grid w h x y"
    and before: "\<forall>j<k. diag_rank (cell_x B ! j) (cell_y B ! j) < diag_rank x y"
    and closed: "\<forall>u v. in_grid w h u v \<and> diag_rank u v < diag_rank x y \<longrightarrow>
                   (\<exists>j<k. cell_x B ! j = u \<and> cell_y B ! j = v)"
    and pos: "0 < w" "0 < h"
  shows "\<exists>B'. assign_keys B x y (int k) = Some B' \<and> keys_inv w h B' (nat (w * h)) \<and>
              table B' = table B \<and> start B' = start B"
  using inv k xy before closed
proof (induction "nat (w * h) - k" arbitrary: B k x y rule: less_induct)
  case less
  note inv = less.prems(1) and k = less.prems(2) and xy = less.prems(3)
    and before = less.prems(4) and closed = less.prems(5)
  define n where "n = nat (w * h)"
  define B1 where "B1 = B\<lparr>cell_x := (cell_x B)[nat (int k) := x],
                          cell_y := (cell_y B)[nat (int k) := y],
                          keys := (keys B)[nat (y * width B + x) := int k]\<rparr>"
  have f: "width B = w" "height B = h" "board_size B = w * h"
    "length (cell_x B) = n" "length (cell_y B) = n" "length (keys B) = n"
    using inv by (simp_all add: keys_inv_def n_def)
  have old: "\<And>j. j < k \<Longrightarrow> in_grid w h (cell_x B ! j) (cell_y B ! j)"
    "\<And>j. j < k \<Longrightarrow> keys B ! nat (cell_y B ! j * w + cell_x B ! j) = int j"
    "\<And>i j. i < j \<Longrightarrow> j < k \<Longrightarrow>
        diag_rank (cell_x B ! i) (cell_y B ! i) < diag_rank (cell_x B ! j) (cell_y B ! j)"
    using inv by (auto simp: keys_inv_def)
  have kn: "k < n" using k by (simp add: n_def)
  have xy0: "0 \<le> x" "0 \<le> y" using xy by (simp_all add: in_grid_def)
  have pb: "0 \<le> y * w + x" "y * w + x < w * h" using pos_bound [OF xy] by simp_all
  then have pn: "nat (y * w + x) < n" by (simp add: n_def)
  have g1: "width B1 = w" "height B1 = h" "board_size B1 = w * h"
    "length (cell_x B1) = n" "length (cell_y B1) = n" "length (keys B1) = n"
    "table B1 = table B" "start B1 = start B"
    using f by (simp_all add: B1_def)
  have cxk: "cell_x B1 ! k = x" "cell_y B1 ! k = y"
    using kn f by (simp_all add: B1_def)
  have cxj: "cell_x B1 ! j = cell_x B ! j" "cell_y B1 ! j = cell_y B ! j" if "j < k" for j
    using that by (simp_all add: B1_def)
  have keyk: "keys B1 ! nat (y * w + x) = int k"
    using pn f by (simp add: B1_def)
  have keyj: "keys B1 ! nat (cell_y B ! j * w + cell_x B ! j) = int j" if j: "j < k" for j
  proof -
    have gj: "in_grid w h (cell_x B ! j) (cell_y B ! j)" using old(1) [OF j] .
    have "diag_rank (cell_x B ! j) (cell_y B ! j) \<noteq> diag_rank x y" using before j by auto
    then have "\<not> (cell_x B ! j = x \<and> cell_y B ! j = y)" by auto
    then have "cell_y B ! j * w + cell_x B ! j \<noteq> y * w + x"
      using pos_inj [OF gj xy] by blast
    moreover have "0 \<le> cell_y B ! j * w + cell_x B ! j" using pos_bound [OF gj] by simp
    ultimately have "nat (cell_y B ! j * w + cell_x B ! j) \<noteq> nat (y * w + x)"
      using pb(1) by (simp add: eq_nat_nat_iff)
    then have "keys B1 ! nat (cell_y B ! j * w + cell_x B ! j) =
               keys B ! nat (cell_y B ! j * w + cell_x B ! j)"
      by (simp add: B1_def f(1))
    then show ?thesis using old(2) [OF j] by simp
  qed
  have inv1: "keys_inv w h B1 (Suc k)"
  proof -
    have a: "in_grid w h (cell_x B1 ! j) (cell_y B1 ! j) \<and>
             keys B1 ! nat (cell_y B1 ! j * w + cell_x B1 ! j) = int j" if "j < Suc k" for j
    proof (cases "j = k")
      case True
      then show ?thesis using cxk xy keyk by simp
    next
      case False
      then have j: "j < k" using that by simp
      show ?thesis using cxj [OF j] old(1) [OF j] keyj [OF j] by simp
    qed
    have b: "diag_rank (cell_x B1 ! i) (cell_y B1 ! i) < diag_rank (cell_x B1 ! j) (cell_y B1 ! j)"
      if "i < j" "j < Suc k" for i j
    proof (cases "j = k")
      case True
      then have i: "i < k" using that by simp
      show ?thesis using before i cxj [OF i] cxk True by simp
    next
      case False
      then have j: "j < k" using that by simp
      then have i: "i < k" using that by simp
      show ?thesis using old(3) [OF that(1) j] cxj [OF i] cxj [OF j] by simp
    qed
    show ?thesis unfolding keys_inv_def using g1 a b by (simp add: n_def)
  qed
  have unf: "assign_keys B x y (int k) =
      (if int k + 1 = w * h then Some B1
       else Option.bind (next_cell w h x y) (\<lambda>p. assign_keys B1 (fst p) (snd p) (int k + 1)))"
    by (subst assign_keys.simps) (simp add: Let_def B1_def f(1-3))
  show ?case
  proof (cases "Suc k = n")
    case True
    then have "int k + 1 = w * h" using pb by (simp add: n_def)
    then have "assign_keys B x y (int k) = Some B1" using unf by simp
    then show ?thesis using inv1 True g1 by (simp add: n_def)
  next
    case False
    then have sk: "Suc k < n" using kn by simp
    then have ne: "int k + 1 \<noteq> w * h" by (simp add: n_def)
    obtain u v where uv: "in_grid w h u v" "\<forall>j<Suc k. (cell_x B1 ! j, cell_y B1 ! j) \<noteq> (u, v)"
      using exists_unassigned [of w h "Suc k" "\<lambda>j. (cell_x B1 ! j, cell_y B1 ! j)"] pos sk
      by (auto simp: n_def)
    have uv0: "0 \<le> u" "0 \<le> v" using uv(1) by (simp_all add: in_grid_def)
    have "\<not> diag_rank u v < diag_rank x y"
    proof
      assume "diag_rank u v < diag_rank x y"
      then obtain j where "j < k" "cell_x B ! j = u" "cell_y B ! j = v" using closed uv(1) by blast
      then show False using uv(2) cxj [of j] by auto
    qed
    moreover have "diag_rank u v \<noteq> diag_rank x y"
    proof
      assume "diag_rank u v = diag_rank x y"
      then have "u = x \<and> v = y" using diag_rank_inj [OF uv0 xy0] by simp
      then show False using uv(2) cxk by auto
    qed
    ultimately have later: "diag_rank x y < diag_rank u v" by linarith
    obtain x' y' where nx: "next_cell w h x y = Some (x', y')" "in_grid w h x' y'"
      "diag_rank x y < diag_rank x' y'"
      "\<forall>u v. in_grid w h u v \<and> diag_rank x y < diag_rank u v \<longrightarrow> diag_rank x' y' \<le> diag_rank u v"
      using next_cell_spec [OF xy0 uv(1) later] by blast
    have before': "\<forall>j<Suc k. diag_rank (cell_x B1 ! j) (cell_y B1 ! j) < diag_rank x' y'"
    proof (intro allI impI)
      fix j assume "j < Suc k"
      show "diag_rank (cell_x B1 ! j) (cell_y B1 ! j) < diag_rank x' y'"
      proof (cases "j = k")
        case True
        then show ?thesis using cxk nx(3) by simp
      next
        case False
        then have j: "j < k" using \<open>j < Suc k\<close> by simp
        have "diag_rank (cell_x B ! j) (cell_y B ! j) < diag_rank x y" using before j by simp
        then show ?thesis using cxj [OF j] nx(3) by simp
      qed
    qed
    have closed': "\<forall>u v. in_grid w h u v \<and> diag_rank u v < diag_rank x' y' \<longrightarrow>
                   (\<exists>j<Suc k. cell_x B1 ! j = u \<and> cell_y B1 ! j = v)"
    proof (intro allI impI)
      fix a b assume ab: "in_grid w h a b \<and> diag_rank a b < diag_rank x' y'"
      have ab0: "0 \<le> a" "0 \<le> b" using ab by (simp_all add: in_grid_def)
      have le: "diag_rank a b \<le> diag_rank x y" using nx(4) ab by (meson not_le)
      show "\<exists>j<Suc k. cell_x B1 ! j = a \<and> cell_y B1 ! j = b"
      proof (cases "diag_rank a b = diag_rank x y")
        case True
        then have "a = x \<and> b = y" using diag_rank_inj [OF ab0 xy0] by simp
        then show ?thesis using cxk by (intro exI [of _ k]) simp
      next
        case False
        then have "diag_rank a b < diag_rank x y" using le by simp
        then obtain j where j: "j < k" "cell_x B ! j = a" "cell_y B ! j = b"
          using closed ab by blast
        then show ?thesis using cxj [OF j(1)] by (intro exI [of _ j]) simp
      qed
    qed
    have m: "n - Suc k < n - k" using sk by simp
    have "\<exists>B'. assign_keys B1 x' y' (int (Suc k)) = Some B' \<and> keys_inv w h B' (nat (w * h)) \<and>
              table B' = table B1 \<and> start B' = start B1"
      using less.hyps [OF m [unfolded n_def] inv1 sk [unfolded n_def] nx(2) before' closed'] .
    then obtain B' where B': "assign_keys B1 x' y' (int (Suc k)) = Some B'"
      "keys_inv w h B' (nat (w * h))" "table B' = table B1" "start B' = start B1" by blast
    have "int k + 1 = int (Suc k)" by simp
    then have "assign_keys B x y (int k) = Some B'"
      using unf ne nx(1) B'(1) by (simp only: if_False bind.bind_lunit fst_conv snd_conv)
    then show ?thesis using B' g1 by simp
  qed
qed

lemma look_back_start_update [simp]: "look_back (B\<lparr>start := s\<rparr>) j = look_back B j"
  by (simp add: look_back_def GetCellKey_def)

lemma init_start_spec:
  assumes "i \<le> n" "board_size B = int n" "length (start B) = Suc n"
  shows "\<exists>s. init_start B (int i) = B\<lparr>start := s\<rparr> \<and> length s = Suc n \<and>
             (\<forall>j. i \<le> j \<and> j < n \<longrightarrow> s ! j = look_back B j) \<and>
             (\<forall>j. j < i \<or> j = n \<longrightarrow> s ! j = start B ! j)"
  using assms
proof (induction "n - i" arbitrary: i B)
  case 0
  then have "init_start B (int i) = B" by (subst init_start.simps) simp
  then have "init_start B (int i) = B\<lparr>start := start B\<rparr>" by simp
  then show ?case using 0 by (intro exI [of _ "start B"]) auto
next
  case (Suc d)
  then have lt: "i < n" by simp
  define B1 where "B1 = B\<lparr>start := (start B)[i := look_back B i]\<rparr>"
  have unf: "init_start B (int i) = init_start B1 (int (Suc i))"
    using lt Suc.prems(2)
    by (subst init_start.simps) (simp add: Let_def B1_def look_back_def add.commute)
  have "\<exists>s. init_start B1 (int (Suc i)) = B1\<lparr>start := s\<rparr> \<and> length s = Suc n \<and>
             (\<forall>j. Suc i \<le> j \<and> j < n \<longrightarrow> s ! j = look_back B1 j) \<and>
             (\<forall>j. j < Suc i \<or> j = n \<longrightarrow> s ! j = start B1 ! j)"
    using Suc.hyps(2) lt Suc.prems by (intro Suc.hyps(1)) (simp_all add: B1_def)
  then obtain s where s: "init_start B1 (int (Suc i)) = B1\<lparr>start := s\<rparr>" "length s = Suc n"
    "\<forall>j. Suc i \<le> j \<and> j < n \<longrightarrow> s ! j = look_back B1 j"
    "\<forall>j. j < Suc i \<or> j = n \<longrightarrow> s ! j = start B1 ! j" by blast
  have a: "init_start B (int i) = B\<lparr>start := s\<rparr>" using unf s(1) by (simp add: B1_def)
  have b: "s ! j = look_back B j" if "i \<le> j" "j < n" for j
  proof (cases "j = i")
    case True
    then have "s ! j = start B1 ! i" using s(4) by simp
    then show ?thesis using True lt Suc.prems(3) by (simp add: B1_def)
  next
    case False
    then show ?thesis using s(3) that by (simp add: B1_def)
  qed
  have c: "s ! j = start B ! j" if "j < i \<or> j = n" for j
  proof -
    have "s ! j = start B1 ! j" using s(4) that by auto
    moreover have "j \<noteq> i" using that lt by auto
    ultimately show ?thesis by (simp add: B1_def)
  qed
  show ?case using a s(2) b c by (intro exI [of _ s]) auto
qed

lemma to_short_id: "0 \<le> v \<Longrightarrow> v \<le> 32767 \<Longrightarrow> to_short v = v"
  by (simp add: to_short_def)

lemma Initialize_ok:
  assumes "0 < w" "0 < h" "w * h \<le> 32767"
  shows "\<exists>nl B. NumberLink w h = Inr nl \<and>
           Initialize nl = Some (B, \<lparr>mates = map int [0..<nat (w * h)], mate_stack = [],
                                      memo = replicate (nat (w * h)) Map.empty\<rparr>) \<and>
           board_ok w h B \<and> table B = replicate (nat (w * h)) 0"
proof -
  define n where "n = nat (w * h)"
  have wh: "0 < w * h" using assms by simp
  have nn: "int n = w * h" using wh by (simp add: n_def)
  have "w * 1 \<le> w * h" using assms by (intro mult_left_mono) simp_all
  then have w: "w \<le> 32767" using assms(3) by simp
  have sz: "to_short (to_short w * h) = w * h"
    using assms w wh by (simp add: to_short_id)
  define B0 where "B0 = \<lparr>width = w, height = h, board_size = w * h,
                     cell_x = replicate n 0, cell_y = replicate n 0,
                     table = replicate n 0, keys = replicate n 0,
                     start = replicate (Suc n) 0\<rparr>"
  define s0 where "s0 = \<lparr>mates = replicate n (0::int), mate_stack = [],
                     memo = replicate n (Map.empty :: Hash \<rightharpoonup> nat)\<rparr>"
  have nl: "NumberLink w h = Inr (B0, s0)"
    using wh by (simp add: NumberLink_def sz Let_def B0_def s0_def n_def nat_add_distrib)
  have inv0: "keys_inv w h B0 0" by (simp add: keys_inv_def B0_def n_def)
  have n0: "0 < nat (w * h)" using wh by simp
  have g0: "in_grid w h 0 0" using assms by (simp add: in_grid_def)
  have r0: "diag_rank 0 0 = 0" by (simp add: diag_rank_def tri_def)
  have cl: "\<forall>u v. in_grid w h u v \<and> diag_rank u v < diag_rank 0 0 \<longrightarrow>
                   (\<exists>j<0. cell_x B0 ! j = u \<and> cell_y B0 ! j = v)"
    using diag_rank_nonneg by (auto simp: in_grid_def r0 not_less)
  have "\<exists>B'. assign_keys B0 0 0 (int 0) = Some B' \<and> keys_inv w h B' (nat (w * h)) \<and>
              table B' = table B0 \<and> start B' = start B0"
    using inv0 n0 g0 _ cl assms(1,2) by (rule assign_keys_loop) simp
  then obtain B1 where B1: "assign_keys B0 0 0 0 = Some B1" "keys_inv w h B1 n"
    "table B1 = replicate n 0" "start B1 = replicate (Suc n) 0"
    by (auto simp: B0_def n_def)
  have bs: "board_size B1 = int n" using B1(2) nn by (simp add: keys_inv_def)
  obtain s where s: "init_start B1 (int 0) = B1\<lparr>start := s\<rparr>" "length s = Suc n"
    "\<forall>j. 0 \<le> j \<and> j < n \<longrightarrow> s ! j = look_back B1 j"
    using init_start_spec [of 0 n B1] bs B1(4) by auto
  define B3 where "B3 = B1\<lparr>start := s[n := int n]\<rparr>"
  have init: "Initialize (B0, s0) = Some (B3, \<lparr>mates = map int [0..<n], mate_stack = [],
                                      memo = replicate n Map.empty\<rparr>)"
    using B1(1) s(1) bs init_mates_eq [of n]
    by (simp add: Initialize_def Let_def B3_def s0_def B0_def nn [symmetric])
  have k3: "keys_inv w h B3 n" using B1(2) by (simp add: keys_inv_def B3_def)
  have "board_ok w h B3"
    unfolding board_ok_def n_def [symmetric]
    using k3 s(2,3) nn by (auto simp: B3_def)
  moreover have "table B3 = replicate n 0" using B1(3) by (simp add: B3_def)
  ultimately show ?thesis using nl init unfolding n_def by blast
qed

lemma board_cells:
  assumes ok: "board_ok w h B" and pos: "0 < w" "0 < h"
  shows "\<And>j. j < nat (w * h) \<Longrightarrow> in_grid w h (cell_x B ! j) (cell_y B ! j)"
    and "\<And>j. j < nat (w * h) \<Longrightarrow> GetCellKey B (cell_x B ! j) (cell_y B ! j) = int j"
    and "\<And>i j. i < nat (w * h) \<Longrightarrow> j < nat (w * h) \<Longrightarrow>
           (diag_rank (cell_x B ! i) (cell_y B ! i) < diag_rank (cell_x B ! j) (cell_y B ! j)
            \<longleftrightarrow> i < j)"
    and "\<And>x y. in_grid w h x y \<Longrightarrow>
           \<exists>j<nat (w * h). cell_x B ! j = x \<and> cell_y B ! j = y \<and> GetCellKey B x y = int j"
proof -
  define n where "n = nat (w * h)"
  have inv: "keys_inv w h B n" using ok by (simp add: board_ok_def n_def)
  have wd: "width B = w" using inv by (simp add: keys_inv_def)
  have c1: "in_grid w h (cell_x B ! j) (cell_y B ! j)" if "j < n" for j
    using inv that by (simp add: keys_inv_def)
  have c2: "GetCellKey B (cell_x B ! j) (cell_y B ! j) = int j" if "j < n" for j
    using inv that by (simp add: keys_inv_def GetCellKey_def)
  have mono: "diag_rank (cell_x B ! i) (cell_y B ! i) < diag_rank (cell_x B ! j) (cell_y B ! j)"
    if "i < j" "j < n" for i j
    using inv that by (simp add: keys_inv_def)
  have c3: "diag_rank (cell_x B ! i) (cell_y B ! i) < diag_rank (cell_x B ! j) (cell_y B ! j)
            \<longleftrightarrow> i < j" if "i < n" "j < n" for i j
  proof (cases i j rule: linorder_cases)
    case less
    then show ?thesis using mono that by simp
  next
    case equal
    then show ?thesis by simp
  next
    case greater
    then show ?thesis using mono [of j i] that by simp
  qed
  have inj: "inj_on (\<lambda>j. (cell_x B ! j, cell_y B ! j)) {..<nat (w * h)}"
  proof (rule inj_onI)
    fix i j assume a: "i \<in> {..<nat (w * h)}" "j \<in> {..<nat (w * h)}"
      "(cell_x B ! i, cell_y B ! i) = (cell_x B ! j, cell_y B ! j)"
    then have "\<not> i < j" "\<not> j < i" using c3 [of i j] c3 [of j i] by (auto simp: n_def)
    then show "i = j" by simp
  qed
  have c4: "\<exists>j<n. cell_x B ! j = x \<and> cell_y B ! j = y \<and> GetCellKey B x y = int j"
    if gxy: "in_grid w h x y" for x y
  proof -
    have w0: "0 \<le> w" "0 \<le> h" using pos by simp_all
    have ing: "\<forall>j<nat (w * h). in_grid w h (fst (cell_x B ! j, cell_y B ! j))
                                        (snd (cell_x B ! j, cell_y B ! j))"
      using c1 by (simp add: n_def)
    obtain j where j: "j < nat (w * h)" "(cell_x B ! j, cell_y B ! j) = (x, y)"
      using all_assigned [OF w0 inj ing gxy] by blast
    then show ?thesis using c2 [of j] by (auto simp: n_def)
  qed
  show "\<And>j. j < nat (w * h) \<Longrightarrow> in_grid w h (cell_x B ! j) (cell_y B ! j)"
    using c1 by (simp add: n_def)
  show "\<And>j. j < nat (w * h) \<Longrightarrow> GetCellKey B (cell_x B ! j) (cell_y B ! j) = int j"
    using c2 by (simp add: n_def)
  show "\<And>i j. i < nat (w * h) \<Longrightarrow> j < nat (w * h) \<Longrightarrow>
           (diag_rank (cell_x B ! i) (cell_y B ! i) < diag_rank (cell_x B ! j) (cell_y B ! j)
            \<longleftrightarrow> i < j)"
    using c3 by (simp add: n_def)
  show "\<And>x y. in_grid w h x y \<Longrightarrow>
           \<exists>j<nat (w * h). cell_x B ! j = x \<and> cell_y B ! j = y \<and> GetCellKey B x y = int j"
    using c4 by (simp add: n_def)
qed

lemma key_order:
  assumes ok: "board_ok w h B" and pos: "0 < w" "0 < h"
    and g: "in_grid w h x1 y1" "in_grid w h x2 y2"
  shows "GetCellKey B x1 y1 < GetCellKey B x2 y2 \<longleftrightarrow> diag_rank x1 y1 < diag_rank x2 y2"
proof -
  obtain i where i: "i < nat (w * h)" "cell_x B ! i = x1" "cell_y B ! i = y1"
    "GetCellKey B x1 y1 = int i"
    using board_cells(4) [OF ok pos g(1)] by blast
  obtain j where j: "j < nat (w * h)" "cell_x B ! j = x2" "cell_y B ! j = y2"
    "GetCellKey B x2 y2 = int j"
    using board_cells(4) [OF ok pos g(2)] by blast
  show ?thesis using board_cells(3) [OF ok pos i(1) j(1)] i j by simp
qed

lemma fixed_cells_ok_iff:
  "fixed_cells_ok B st lo hi \<longleftrightarrow>
     \<not> (\<exists>h. lo \<le> h \<and> h < hi \<and>
            ((table B ! nat h = 0 \<and> mates st ! nat h \<noteq> -1 \<and> mates st ! nat h \<noteq> h) \<or>
             (table B ! nat h \<noteq> 0 \<and> mates st ! nat h = h)))"
proof (induction B st lo hi rule: fixed_cells_ok.induct)
  case (1 B st lo hi)
  let ?bad = "\<lambda>h. (table B ! nat h = 0 \<and> mates st ! nat h \<noteq> -1 \<and> mates st ! nat h \<noteq> h) \<or>
             (table B ! nat h \<noteq> 0 \<and> mates st ! nat h = h)"
  show ?case
  proof (cases "lo < hi")
    case False
    then have "fixed_cells_ok B st lo hi" by (subst fixed_cells_ok.simps) simp
    moreover have "\<not> (\<exists>h. lo \<le> h \<and> h < hi \<and> ?bad h)" using False by auto
    ultimately show ?thesis by blast
  next
    case True
    show ?thesis
    proof (cases "?bad lo")
      case bad: True
      then have "\<not> fixed_cells_ok B st lo hi"
        using True by (subst fixed_cells_ok.simps) auto
      moreover have "\<exists>h. lo \<le> h \<and> h < hi \<and> ?bad h" using True bad by (intro exI [of _ lo]) simp
      ultimately show ?thesis by blast
    next
      case good: False
      have step: "fixed_cells_ok B st lo hi = fixed_cells_ok B st (lo + 1) hi"
        using True good by (subst fixed_cells_ok.simps) auto
      have ih: "fixed_cells_ok B st (lo + 1) hi \<longleftrightarrow> \<not> (\<exists>h. lo + 1 \<le> h \<and> h < hi \<and> ?bad h)"
      proof (cases "table B ! nat lo = 0")
        case z: True
        then have "\<not> (mates st ! nat lo \<noteq> -1 \<and> mates st ! nat lo \<noteq> lo)" using good by blast
        from 1(1) [OF True z this] show ?thesis .
      next
        case nz: False
        then have "mates st ! nat lo \<noteq> lo" using good by blast
        from 1(2) [OF True nz this] show ?thesis .
      qed
      have "(\<exists>h. lo \<le> h \<and> h < hi \<and> ?bad h) \<longleftrightarrow> (\<exists>h. lo + 1 \<le> h \<and> h < hi \<and> ?bad h)"
      proof
        assume "\<exists>h. lo \<le> h \<and> h < hi \<and> ?bad h"
        then obtain h where h: "lo \<le> h" "h < hi" "?bad h" by blast
        then have "h \<noteq> lo" using good by blast
        then have "lo + 1 \<le> h" using h(1) by simp
        then show "\<exists>h. lo + 1 \<le> h \<and> h < hi \<and> ?bad h" using h by blast
      next
        assume "\<exists>h. lo + 1 \<le> h \<and> h < hi \<and> ?bad h"
        then obtain h where h: "lo + 1 \<le> h" "h < hi" "?bad h" by blast
        then have "lo \<le> h" by simp
        then show "\<exists>h. lo \<le> h \<and> h < hi \<and> ?bad h" using h by blast
      qed
      then show ?thesis using step ih by simp
    qed
  qed
qed

lemma mate_tuple_slice:
  assumes "0 \<le> start B ! nat k" "start B ! nat k \<le> k" "nat k \<le> length (mates st)"
  shows "mate_tuple B st k = map (\<lambda>i. mates st ! i) [nat (start B ! nat k)..<nat k]"
proof (rule nth_equalityI)
  show "length (mate_tuple B st k) =
        length (map (\<lambda>i. mates st ! i) [nat (start B ! nat k)..<nat k])"
    using assms(3) by (simp add: mate_tuple_def)
next
  fix i assume "i < length (mate_tuple B st k)"
  then have i: "i < nat k - nat (start B ! nat k)" using assms(3) by (simp add: mate_tuple_def)
  then have "nat (start B ! nat k) + i < nat k" by simp
  then show "mate_tuple B st k ! i =
        map (\<lambda>i. mates st ! i) [nat (start B ! nat k)..<nat k] ! i"
    using i assms(3) by (simp add: mate_tuple_def)
qed

lemma to_short_range: "- 32768 \<le> v \<Longrightarrow> v \<le> 32767 \<Longrightarrow> to_short v = v"
  by (simp add: to_short_def)

section \<open>The search finds nothing on a board with an unpaired number\<close>

lemma key_le:
  assumes ok: "board_ok w h B" and pos: "0 < w" "0 < h"
    and g: "in_grid w h x1 y1" "in_grid w h x2 y2"
    and r: "x1 + y1 < x2 + y2 \<or> (x1 + y1 = x2 + y2 \<and> x1 \<ge> x2)"
  shows "GetCellKey B x1 y1 \<le> GetCellKey B x2 y2"
proof -
  have b: "0 \<le> x1" "0 \<le> y1" "0 \<le> x2" "0 \<le> y2" using g by (simp_all add: in_grid_def)
  have "\<not> diag_rank x2 y2 < diag_rank x1 y1"
    unfolding diag_rank_less_iff [OF b(3,4,1,2)] using r by linarith
  then have "\<not> GetCellKey B x2 y2 < GetCellKey B x1 y1"
    using key_order [OF ok pos g(2) g(1)] by simp
  then show ?thesis by simp
qed

lemma key_less:
  assumes ok: "board_ok w h B" and pos: "0 < w" "0 < h"
    and g: "in_grid w h x1 y1" "in_grid w h x2 y2"
    and r: "x1 + y1 < x2 + y2 \<or> (x1 + y1 = x2 + y2 \<and> x1 > x2)"
  shows "GetCellKey B x1 y1 < GetCellKey B x2 y2"
proof -
  have b: "0 \<le> x1" "0 \<le> y1" "0 \<le> x2" "0 \<le> y2" using g by (simp_all add: in_grid_def)
  have "diag_rank x1 y1 < diag_rank x2 y2"
    unfolding diag_rank_less_iff [OF b] using r by linarith
  then show ?thesis using key_order [OF ok pos g] by simp
qed

lemma key_nonneg:
  assumes ok: "board_ok w h B" and pos: "0 < w" "0 < h" and g: "in_grid w h x y"
  shows "0 \<le> GetCellKey B x y"
  using board_cells(4) [OF ok pos g] by auto

lemma board_geometry:
  assumes ok: "board_ok w h B" and pos: "0 < w" "0 < h"
  shows "geometry_ok B (nat (w * h))"
proof -
  define n where "n = nat (w * h)"
  have wh: "0 < w * h" using pos by simp
  have nn: "int n = w * h" using wh by (simp add: n_def)
  have bs: "board_size B = int n" using ok nn by (simp add: board_ok_def keys_inv_def)
  have ls: "length (start B) = Suc n" "start B ! n = int n"
    using ok nn by (simp_all add: board_ok_def n_def)
  have st: "start B ! j = look_back B j" if "j < n" for j
    using ok that by (simp add: board_ok_def n_def)
  note cells = board_cells [OF ok pos, folded n_def]
  have per: "start B ! k \<le> int k \<and> start B ! k \<le> start B ! Suc k \<and>
            (up_key B k = -1 \<or>
               (0 \<le> up_key B k \<and> start B ! k \<le> up_key B k \<and> up_key B k < int k)) \<and>
            (left_key B k = -1 \<or>
               (0 \<le> left_key B k \<and> start B ! k \<le> left_key B k \<and> left_key B k < int k))"
    if k: "k < n" for k
  proof -
    define x y where "x = cell_x B ! k" and "y = cell_y B ! k"
    have gk: "in_grid w h x y" using cells(1) [OF k] by (simp add: x_def y_def)
    have kk: "GetCellKey B x y = int k" using cells(2) [OF k] by (simp add: x_def y_def)
    have b: "0 \<le> x" "x < w" "0 \<le> y" "y < h" using gk by (simp_all add: in_grid_def)
    have gu: "in_grid w h x (y - 1)" if "0 < y" using that b by (simp add: in_grid_def)
    have gl: "in_grid w h (x - 1) y" if "0 < x" using that b by (simp add: in_grid_def)
    have up: "up_key B k = -1 \<or>
               (0 \<le> up_key B k \<and> start B ! k \<le> up_key B k \<and> up_key B k < int k)"
    proof (cases "0 < y")
      case False
      then show ?thesis by (simp add: up_key_def y_def)
    next
      case True
      have u: "up_key B k = GetCellKey B x (y - 1)" using True by (simp add: up_key_def x_def y_def)
      have "start B ! k = GetCellKey B x (y - 1)"
        using True st [OF k] by (simp add: look_back_def x_def y_def)
      moreover have "GetCellKey B x (y - 1) < GetCellKey B x y"
        using gu [OF True] gk by (intro key_less [OF ok pos]) simp_all
      moreover have "0 \<le> GetCellKey B x (y - 1)" using key_nonneg [OF ok pos gu [OF True]] .
      ultimately show ?thesis using u kk by simp
    qed
    have left: "left_key B k = -1 \<or>
               (0 \<le> left_key B k \<and> start B ! k \<le> left_key B k \<and> left_key B k < int k)"
    proof (cases "0 < x")
      case False
      then show ?thesis by (simp add: left_key_def x_def)
    next
      case True
      have l: "left_key B k = GetCellKey B (x - 1) y" using True by (simp add: left_key_def x_def y_def)
      have lt: "GetCellKey B (x - 1) y < GetCellKey B x y"
        using gl [OF True] gk by (intro key_less [OF ok pos]) simp_all
      have nn: "0 \<le> GetCellKey B (x - 1) y" using key_nonneg [OF ok pos gl [OF True]] .
      have "start B ! k \<le> GetCellKey B (x - 1) y"
      proof (cases "0 < y")
        case y: True
        have "start B ! k = GetCellKey B x (y - 1)"
          using y st [OF k] by (simp add: look_back_def x_def y_def)
        moreover have "GetCellKey B x (y - 1) \<le> GetCellKey B (x - 1) y"
          using gu [OF y] gl [OF True] by (intro key_le [OF ok pos]) simp_all
        ultimately show ?thesis by simp
      next
        case False
        then have "start B ! k = GetCellKey B (x - 1) y"
          using True st [OF k] by (simp add: look_back_def x_def y_def)
        then show ?thesis by simp
      qed
      then show ?thesis using l lt nn kk by simp
    qed
    have lb_le: "start B ! k \<le> int k"
    proof (cases "0 < y")
      case True
      then have "up_key B k \<noteq> -1"
        using key_nonneg [OF ok pos gu [OF True]] by (simp add: up_key_def x_def y_def)
      then show ?thesis using up by linarith
    next
      case y: False
      show ?thesis
      proof (cases "0 < x")
        case True
        then have "left_key B k \<noteq> -1"
          using key_nonneg [OF ok pos gl [OF True]] by (simp add: left_key_def x_def y_def)
        then show ?thesis using left by linarith
      next
        case False
        then have "start B ! k = 0" using y st [OF k] by (simp add: look_back_def x_def y_def)
        then show ?thesis by simp
      qed
    qed
    have mono: "start B ! k \<le> start B ! Suc k"
    proof (cases "Suc k = n")
      case True
      then show ?thesis using ls(2) lb_le by simp
    next
      case False
      then have k': "Suc k < n" using k by simp
      define x' y' where "x' = cell_x B ! Suc k" and "y' = cell_y B ! Suc k"
      have gk': "in_grid w h x' y'" using cells(1) [OF k'] by (simp add: x'_def y'_def)
      have b': "0 \<le> x'" "x' < w" "0 \<le> y'" "y' < h" using gk' by (simp_all add: in_grid_def)
      have "diag_rank x y < diag_rank x' y'"
        using cells(3) [OF k k'] by (simp add: x_def y_def x'_def y'_def)
      then have rel: "x + y < x' + y' \<or> (x + y = x' + y' \<and> x > x')"
        using diag_rank_less_iff [OF b(1,3) b'(1,3)] by simp
      have s: "start B ! k = look_back B k" "start B ! Suc k = look_back B (Suc k)"
        using st [OF k] st [OF k'] by simp_all
      have lb0: "0 \<le> look_back B (Suc k)"
      proof -
        have "0 \<le> GetCellKey B x' (y' - 1)" if "0 < y'"
          using that b' by (intro key_nonneg [OF ok pos]) (simp add: in_grid_def)
        moreover have "0 \<le> GetCellKey B (x' - 1) y'" if "0 < x'"
          using that b' by (intro key_nonneg [OF ok pos]) (simp add: in_grid_def)
        ultimately show ?thesis by (simp add: look_back_def x'_def y'_def)
      qed
      consider (a) "0 < y'" "0 < y" | (b) "0 < y'" "\<not> 0 < y" "0 < x"
        | (c) "\<not> 0 < y" "\<not> 0 < x" | (d) "\<not> 0 < y'" "0 < y" | (e) "\<not> 0 < y'" "\<not> 0 < y" "0 < x"
        by linarith
      then have "look_back B k \<le> look_back B (Suc k)"
      proof cases
        case a
        have "GetCellKey B x (y - 1) \<le> GetCellKey B x' (y' - 1)"
          using a b b' rel by (intro key_le [OF ok pos]) (auto simp: in_grid_def)
        then show ?thesis using a by (simp add: look_back_def x_def y_def x'_def y'_def)
      next
        case b
        have "GetCellKey B (x - 1) y \<le> GetCellKey B x' (y' - 1)"
          using b \<open>0 \<le> x\<close> \<open>x < w\<close> \<open>0 \<le> y\<close> \<open>y < h\<close> b' rel
          by (intro key_le [OF ok pos]) (auto simp: in_grid_def)
        then show ?thesis using b by (simp add: look_back_def x_def y_def x'_def y'_def)
      next
        case c
        then have "look_back B k = 0" by (simp add: look_back_def x_def y_def)
        then show ?thesis using lb0 by simp
      next
        case d
        then have y0: "y' = 0" using b' by simp
        then have x'pos: "0 < x'" using rel b d by linarith
        have "GetCellKey B x (y - 1) \<le> GetCellKey B (x' - 1) y'"
          using d b b' rel y0 x'pos by (intro key_le [OF ok pos]) (auto simp: in_grid_def)
        then show ?thesis using d x'pos by (simp add: look_back_def x_def y_def x'_def y'_def)
      next
        case e
        then have y0: "y' = 0" "y = 0" using b' \<open>0 \<le> y\<close> by simp_all
        then have x'pos: "0 < x'" using rel e by linarith
        have "GetCellKey B (x - 1) y \<le> GetCellKey B (x' - 1) y'"
          using e \<open>0 \<le> x\<close> \<open>x < w\<close> \<open>0 \<le> y\<close> \<open>y < h\<close> b' rel y0 x'pos
          by (intro key_le [OF ok pos]) (auto simp: in_grid_def)
        then show ?thesis using e x'pos by (simp add: look_back_def x_def y_def x'_def y'_def)
      qed
      then show ?thesis using s by simp
    qed
    show ?thesis using lb_le mono up left by blast
  qed
  show ?thesis unfolding geometry_ok_def n_def [symmetric] using bs ls per by blast
qed

lemma united_nth:
  assumes wf: "mates_wf n (mates st)" and a: "valid_key n a" and b: "valid_key n b"
    and e1: "mates st ! nat a \<noteq> -1" and e2: "mates st ! nat b \<noteq> -1" and c: "c < n"
  shows "mates (united a b st) ! c =
     (if c = nat (mates st ! nat b) then mates st ! nat a
      else if c = nat (mates st ! nat a) then mates st ! nat b
      else if c = nat b then -1 else if c = nat a then -1 else mates st ! c)"
proof -
  have len: "length (mates st) = n" using wf by (simp add: mates_wf_def)
  have v1: "valid_key n (mates st ! nat a)" using mates_wf_entry [OF wf a e1] by simp
  have v2: "valid_key n (mates st ! nat b)" using mates_wf_entry [OF wf b e2] by simp
  show ?thesis
    unfolding united_mates
    using valid_key_nat [OF a] valid_key_nat [OF b] valid_key_nat [OF v1] valid_key_nat [OF v2]
    by (intro nth_upd4 [OF len _ _ _ _ c]) simp_all
qed

lemma UniteMates_search_inv:
  assumes inv: "search_inv tbl n bnd (mates st)"
    and a: "valid_key n a" and b: "valid_key n b" and ab: "a \<noteq> b"
    and ba: "bnd \<le> a" and bb: "bnd \<le> b"
    and ok: "fst (UniteMates tbl a b st)"
  shows "search_inv tbl n bnd (mates (snd (UniteMates tbl a b st)))"
proof -
  define m where "m = mates st"
  define e1 e2 where "e1 = m ! nat a" and "e2 = m ! nat b"
  define m4 where "m4 = mates (united a b st)"
  have wf: "mates_wf n (mates st)" using inv by (simp add: search_inv_def)
  have early: "\<not> (mates st ! nat a = -1 \<or> mates st ! nat b = -1 \<or>
                  (a = mates st ! nat b \<and> b = mates st ! nat a))"
  proof
    assume "mates st ! nat a = -1 \<or> mates st ! nat b = -1 \<or>
                  (a = mates st ! nat b \<and> b = mates st ! nat a)"
    then have "UniteMates tbl a b st = (False, st)" by (rule UniteMates_early)
    with ok show False by simp
  qed
  have ne: "mates st ! nat a \<noteq> -1" "mates st ! nat b \<noteq> -1" using early by blast+
  have s: "snd (UniteMates tbl a b st) = united a b st" using early by (rule UniteMates_late)
  have chk: "\<not> (m4 ! nat a = -1 \<and> 0 < tbl ! nat a)" "\<not> (m4 ! nat b = -1 \<and> 0 < tbl ! nat b)"
    "\<not> (0 < tbl ! nat e1 \<and> 0 < tbl ! nat e2 \<and> tbl ! nat e1 \<noteq> tbl ! nat e2)"
    using ok UniteMates_fst_late [OF early, of tbl] by (auto simp: m4_def e1_def e2_def m_def)
  have v1: "valid_key n e1" and s1: "m ! nat e1 = a"
    using mates_wf_entry [OF wf a ne(1)] by (simp_all add: e1_def m_def)
  have v2: "valid_key n e2" and s2: "m ! nat e2 = b"
    using mates_wf_entry [OF wf b ne(2)] by (simp_all add: e2_def m_def)
  have ia: "nat a < n" "int (nat a) = a" using valid_key_nat [OF a] by simp_all
  have ib: "nat b < n" "int (nat b) = b" using valid_key_nat [OF b] by simp_all
  have i1: "nat e1 < n" "int (nat e1) = e1" using valid_key_nat [OF v1] by simp_all
  have i2: "nat e2 < n" "int (nat e2) = e2" using valid_key_nat [OF v2] by simp_all
  have e12: "nat e1 \<noteq> nat e2"
  proof
    assume h: "nat e1 = nat e2"
    have "m ! nat e2 = a" using s1 unfolding h .
    with s2 ab show False by simp
  qed
  have nth: "m4 ! c = (if c = nat e2 then e1 else if c = nat e1 then e2
                       else if c = nat b then -1 else if c = nat a then -1 else m ! c)"
    if "c < n" for c
    unfolding m4_def e1_def e2_def m_def by (rule united_nth [OF wf a b ne that])
  have wf4: "mates_wf n m4"
    unfolding m4_def using wf a b ne early by (intro united_wf) blast+
  have old2: "\<And>c. c < n \<Longrightarrow> 0 < tbl ! c \<Longrightarrow> m ! c \<noteq> -1"
    and old3: "\<And>c. c < n \<Longrightarrow> m ! c \<noteq> -1 \<Longrightarrow> 0 < tbl ! c \<Longrightarrow> 0 < tbl ! nat (m ! c) \<Longrightarrow>
                  tbl ! nat (m ! c) = tbl ! c"
    and old4: "\<And>h. h < n \<Longrightarrow> int h < bnd \<Longrightarrow> fixed_ok tbl m h"
    using inv by (auto simp: search_inv_def m_def)
  have j2: "m4 ! c \<noteq> -1" if c: "c < n" and p: "0 < tbl ! c" for c
  proof -
    consider (e2) "c = nat e2" | (e1) "c \<noteq> nat e2" "c = nat e1"
      | (b) "c \<noteq> nat e2" "c \<noteq> nat e1" "c = nat b"
      | (a) "c \<noteq> nat e2" "c \<noteq> nat e1" "c \<noteq> nat b" "c = nat a"
      | (o) "c \<noteq> nat e2" "c \<noteq> nat e1" "c \<noteq> nat b" "c \<noteq> nat a"
      by blast
    then show ?thesis
    proof cases
      case e2
      then have "m4 ! c = e1" using nth [OF c] by simp
      then show ?thesis using ne(1) by (simp add: e1_def m_def)
    next
      case e1
      then have "m4 ! c = e2" using nth [OF c] by simp
      then show ?thesis using ne(2) by (simp add: e2_def m_def)
    next
      case b
      then have "m4 ! nat b = -1" using nth [OF ib(1)] by simp
      then show ?thesis using chk(2) p b(3) by simp
    next
      case a
      then have "m4 ! nat a = -1" using nth [OF ia(1)] by simp
      then show ?thesis using chk(1) p a(4) by simp
    next
      case o
      then have "m4 ! c = m ! c" using nth [OF c] by simp
      then show ?thesis using old2 [OF c p] by simp
    qed
  qed
  have j3: "tbl ! nat (m4 ! c) = tbl ! c"
    if c: "c < n" and q: "m4 ! c \<noteq> -1" "0 < tbl ! c" "0 < tbl ! nat (m4 ! c)" for c
  proof -
    consider (e2) "c = nat e2" | (e1) "c \<noteq> nat e2" "c = nat e1"
      | (ab) "c \<noteq> nat e2" "c \<noteq> nat e1" "c = nat b \<or> c = nat a"
      | (o) "c \<noteq> nat e2" "c \<noteq> nat e1" "c \<noteq> nat b" "c \<noteq> nat a"
      by blast
    then show ?thesis
    proof cases
      case e2
      then have "m4 ! c = e1" using nth [OF c] by simp
      then show ?thesis using chk(3) q e2 by auto
    next
      case e1
      then have "m4 ! c = e2" using nth [OF c] by simp
      then show ?thesis using chk(3) q e1 by auto
    next
      case ab
      then have "m4 ! c = -1" using nth [OF c] by auto
      then show ?thesis using q(1) by simp
    next
      case o
      then have same: "m4 ! c = m ! c" using nth [OF c] by simp
      then show ?thesis using old3 [OF c] q by simp
    qed
  qed
  have j4: "fixed_ok tbl m4 h" if h: "h < n" and hb: "int h < bnd" for h
  proof -
    have f: "fixed_ok tbl m h" using old4 [OF h hb] .
    have hna: "h \<noteq> nat a" using hb ba ia(2) by linarith
    have hnb: "h \<noteq> nat b" using hb bb ib(2) by linarith
    consider (e2) "h = nat e2" | (e1) "h \<noteq> nat e2" "h = nat e1"
      | (o) "h \<noteq> nat e2" "h \<noteq> nat e1"
      by blast
    then show ?thesis
    proof cases
      case e2
      have mh: "m ! h = b" using s2 e2 by simp
      then have "m ! h \<noteq> -1" "m ! h \<noteq> int h" using b hnb ib(2) by (auto simp: valid_key_def)
      then have nz: "tbl ! h \<noteq> 0" using f by (auto simp: fixed_ok_def)
      have "m4 ! h = e1" using nth [OF h] e2 by simp
      moreover have "e1 \<noteq> int h" using e12 e2 i1(2) by auto
      ultimately show ?thesis using nz by (simp add: fixed_ok_def)
    next
      case e1
      have mh: "m ! h = a" using s1 e1 by simp
      then have "m ! h \<noteq> -1" "m ! h \<noteq> int h" using a hna ia(2) by (auto simp: valid_key_def)
      then have nz: "tbl ! h \<noteq> 0" using f by (auto simp: fixed_ok_def)
      have "m4 ! h = e2" using nth [OF h] e1 by simp
      moreover have "e2 \<noteq> int h" using e12 e1 i2(2) by auto
      ultimately show ?thesis using nz by (simp add: fixed_ok_def)
    next
      case o
      then have "m4 ! h = m ! h" using nth [OF h] hna hnb by simp
      then show ?thesis using f by (simp add: fixed_ok_def)
    qed
  qed
  show ?thesis
    unfolding s m4_def [symmetric] search_inv_def using wf4 j2 j3 j4 by blast
qed

lemma even_card_involution:
  assumes "finite S" "\<And>x. x \<in> S \<Longrightarrow> f x \<in> S \<and> f x \<noteq> x \<and> f (f x) = x"
  shows "even (card S)"
  using assms
proof (induction S rule: finite_psubset_induct)
  case (psubset S)
  show ?case
  proof (cases "S = {}")
    case True
    then show ?thesis by simp
  next
    case False
    then obtain x where x: "x \<in> S" by blast
    have fx: "f x \<in> S" "f x \<noteq> x" "f (f x) = x" using psubset.prems [OF x] by simp_all
    define T where "T = S - {x, f x}"
    have sub: "T \<subset> S" using x by (auto simp: T_def)
    have inv: "f y \<in> T \<and> f y \<noteq> y \<and> f (f y) = y" if "y \<in> T" for y
    proof -
      have y: "y \<in> S" "y \<noteq> x" "y \<noteq> f x" using that by (auto simp: T_def)
      have p: "f y \<in> S" "f y \<noteq> y" "f (f y) = y" using psubset.prems [OF y(1)] by simp_all
      have "f y \<noteq> x"
      proof
        assume "f y = x"
        then have "f (f y) = f x" by simp
        with p(3) y(3) show False by simp
      qed
      moreover have "f y \<noteq> f x"
      proof
        assume "f y = f x"
        then have "f (f y) = f (f x)" by simp
        with p(3) fx(3) y(2) show False by simp
      qed
      ultimately show ?thesis using p by (simp add: T_def)
    qed
    have "even (card T)" using psubset.IH [OF sub] inv by blast
    moreover have "card S = card T + 2"
    proof -
      have "card (S - {x, f x}) = card S - card {x, f x}"
        using x fx(1) psubset.hyps by (intro card_Diff_subset) auto
      moreover have "card {x, f x} = 2" using fx(2) by simp
      moreover have "card {x, f x} \<le> card S"
        using x fx(1) psubset.hyps by (intro card_mono) auto
      ultimately show ?thesis by (simp add: T_def)
    qed
    ultimately show ?thesis by simp
  qed
qed

lemma count_list_card: "count_list xs v = card {i. i < length xs \<and> xs ! i = v}"
proof -
  have "count_list xs v = length (filter ((=) v) xs)" by (rule count_list_eq_length_filter)
  also have "\<dots> = card {i. i < length xs \<and> v = xs ! i}" by (rule length_filter_conv_card)
  also have "{i. i < length xs \<and> v = xs ! i} = {i. i < length xs \<and> xs ! i = v}" by auto
  finally show ?thesis .
qed

lemma all_fixed_even:
  assumes inv: "search_inv tbl n (int n) m" and len: "length tbl = n"
    and lab: "\<forall>k \<in> {0..<n}. 0 \<le> tbl ! k" and v: "0 < v"
  shows "even (count_list tbl v)"
proof -
  define S where "S = {i. i < n \<and> tbl ! i = v}"
  have wf: "mates_wf n m"
    and j2: "\<And>c. c < n \<Longrightarrow> 0 < tbl ! c \<Longrightarrow> m ! c \<noteq> -1"
    and j3: "\<And>c. c < n \<Longrightarrow> m ! c \<noteq> -1 \<Longrightarrow> 0 < tbl ! c \<Longrightarrow> 0 < tbl ! nat (m ! c) \<Longrightarrow>
                  tbl ! nat (m ! c) = tbl ! c"
    and j4: "\<And>h. h < n \<Longrightarrow> fixed_ok tbl m h"
    using inv by (auto simp: search_inv_def)
  have step: "nat (m ! c) \<in> S \<and> nat (m ! c) \<noteq> c \<and> nat (m ! nat (m ! c)) = c" if "c \<in> S" for c
  proof -
    have c: "c < n" "tbl ! c = v" using that by (simp_all add: S_def)
    have p: "0 < tbl ! c" using c v by simp
    have ncl: "m ! c \<noteq> -1" using j2 [OF c(1) p] .
    have nself: "m ! c \<noteq> int c" using j4 [OF c(1)] p by (simp add: fixed_ok_def)
    have d: "0 \<le> m ! c" "m ! c < int n" "m ! nat (m ! c) = int c"
      using wf c(1) ncl by (auto simp: mates_wf_def)
    define d' where "d' = nat (m ! c)"
    have dn: "d' < n" "int d' = m ! c" "m ! d' = int c" using d by (simp_all add: d'_def)
    have dc: "d' \<noteq> c" using nself dn(2) by auto
    have "tbl ! d' \<noteq> 0"
    proof
      assume z: "tbl ! d' = 0"
      then have "m ! d' = -1 \<or> m ! d' = int d'" using j4 [OF dn(1)] by (simp add: fixed_ok_def)
      then show False using dn(3) dc by auto
    qed
    moreover have "0 \<le> tbl ! d'" using lab dn(1) by simp
    ultimately have pd: "0 < tbl ! d'" by linarith
    have "tbl ! d' = tbl ! c" using j3 [OF c(1) ncl p] pd by (simp add: d'_def)
    then have "d' \<in> S" using dn(1) c(2) by (simp add: S_def)
    then show ?thesis using dc dn(3) by (simp add: d'_def)
  qed
  have "finite S" by (simp add: S_def)
  then have "even (card S)" using step by (rule even_card_involution [where f = "\<lambda>c. nat (m ! c)"])
  then show ?thesis using len by (simp add: count_list_card S_def)
qed

lemma Connect_unfold:
  assumes "0 \<le> k" "k < board_size B"
  shows "Connect B k st =
     (case Solve B (k + 1) st of
        (count0, st0) \<Rightarrow>
          (case (if 0 \<le> up_key B (nat k)
                 then branch_up (Solve B (k + 1)) (table B) k (up_key B (nat k))
                        (length (mate_stack st)) count0 st0
                 else (count0, st0)) of
             (count1, st1) \<Rightarrow>
               (if 0 \<le> left_key B (nat k)
                then branch_left (Solve B (k + 1)) (table B) k (left_key B (nat k))
                       (up_key B (nat k)) (length (mate_stack st)) count1 st1
                else (count1, st1))))"
proof -
  have g: "(k < 0 \<or> board_size B \<le> k) = False" using assms by simp
  show ?thesis
    unfolding branch_up_def branch_left_def up_key_def left_key_def
    by (subst Connect.simps) (simp only: g if_False Let_def)
qed

lemma ChangeMates_memo_indep:
  "snd (ChangeMates k v (st\<lparr>memo := M\<rparr>)) = (snd (ChangeMates k v st))\<lparr>memo := M\<rparr>"
  by (simp add: ChangeMates_def Let_def)

lemma united_memo_indep: "united a b (st\<lparr>memo := M\<rparr>) = (united a b st)\<lparr>memo := M\<rparr>"
  by (simp add: united_def Let_def ChangeMates_memo_indep)

lemma UniteMates_memo_indep:
  "UniteMates tbl a b (st\<lparr>memo := M\<rparr>) =
     (fst (UniteMates tbl a b st), (snd (UniteMates tbl a b st))\<lparr>memo := M\<rparr>)"
proof (cases "mates st ! nat a = -1 \<or> mates st ! nat b = -1 \<or>
              (a = mates st ! nat b \<and> b = mates st ! nat a)")
  case True
  have mm: "mates (st\<lparr>memo := M\<rparr>) = mates st" by simp
  have e: "mates (st\<lparr>memo := M\<rparr>) ! nat a = -1 \<or> mates (st\<lparr>memo := M\<rparr>) ! nat b = -1 \<or>
              (a = mates (st\<lparr>memo := M\<rparr>) ! nat b \<and> b = mates (st\<lparr>memo := M\<rparr>) ! nat a)"
    using True unfolding mm .
  show ?thesis
    by (simp only: UniteMates_early [OF True] UniteMates_early [OF e] fst_conv snd_conv)
next
  case False
  have mm: "mates (st\<lparr>memo := M\<rparr>) = mates st" by simp
  have mu: "mates ((united a b st)\<lparr>memo := M\<rparr>) = mates (united a b st)" by simp
  have e: "\<not> (mates (st\<lparr>memo := M\<rparr>) ! nat a = -1 \<or> mates (st\<lparr>memo := M\<rparr>) ! nat b = -1 \<or>
              (a = mates (st\<lparr>memo := M\<rparr>) ! nat b \<and> b = mates (st\<lparr>memo := M\<rparr>) ! nat a))"
    using False unfolding mm .
  have s: "snd (UniteMates tbl a b (st\<lparr>memo := M\<rparr>)) = (snd (UniteMates tbl a b st))\<lparr>memo := M\<rparr>"
    by (simp only: UniteMates_late [OF False] UniteMates_late [OF e] united_memo_indep)
  have f: "fst (UniteMates tbl a b (st\<lparr>memo := M\<rparr>)) = fst (UniteMates tbl a b st)"
    by (simp only: UniteMates_fst_late [OF False, of tbl] UniteMates_fst_late [OF e, of tbl]
          united_memo_indep mm mu)
  show ?thesis unfolding f [symmetric] s [symmetric] by (rule prod.collapse [symmetric])
qed

lemma RevertMates_memo_indep:
  "RevertMates r (st\<lparr>memo := M\<rparr>) = (RevertMates r st)\<lparr>memo := M\<rparr>"
proof (induction r st rule: RevertMates.induct)
  case (1 r st)
  show ?case
  proof (cases "r < length (mate_stack st)")
    case True
    let ?st1 = "st\<lparr>mates := (mates st)[nat (fst (hd (mate_stack st))) := snd (hd (mate_stack st))],
                mate_stack := tl (mate_stack st)\<rparr>"
    have a: "RevertMates r st = RevertMates r ?st1"
      using True by (subst RevertMates.simps) simp
    have "RevertMates r (st\<lparr>memo := M\<rparr>) =
          RevertMates r ((st\<lparr>memo := M\<rparr>)\<lparr>mates := (mates (st\<lparr>memo := M\<rparr>))
                 [nat (fst (hd (mate_stack (st\<lparr>memo := M\<rparr>)))) := snd (hd (mate_stack (st\<lparr>memo := M\<rparr>)))],
                mate_stack := tl (mate_stack (st\<lparr>memo := M\<rparr>))\<rparr>)"
      using True by (subst RevertMates.simps) simp
    also have "\<dots> = RevertMates r (?st1\<lparr>memo := M\<rparr>)"
      by (rule arg_cong [where f = "RevertMates r"]) simp
    finally have b: "RevertMates r (st\<lparr>memo := M\<rparr>) = RevertMates r (?st1\<lparr>memo := M\<rparr>)" .
    show ?thesis unfolding a b using 1 [OF True] .
  next
    case False
    then show ?thesis by (simp add: RevertMates_noop)
  qed
qed

lemma revert_after_unite:
  "RevertMates (length (mate_stack st)) ((snd (UniteMates tbl a b st))\<lparr>memo := M\<rparr>) = st\<lparr>memo := M\<rparr>"
  by (simp add: RevertMates_memo_indep RevertMates_UniteMates RevertMates_noop)

lemma revert_after_two_unites:
  "RevertMates (length (mate_stack st))
     ((snd (UniteMates tbl a b (snd (UniteMates tbl a' b' st))))\<lparr>memo := M\<rparr>) = st\<lparr>memo := M\<rparr>"
proof -
  have "length (mate_stack st) \<le> length (mate_stack (snd (UniteMates tbl a' b' st)))"
    by (rule UniteMates_stack_mono)
  then show ?thesis
    by (simp add: RevertMates_memo_indep RevertMates_UniteMates RevertMates_noop)
qed

lemma good_solveD:
  assumes "good_solve solve tbl n bnd" "search_inv tbl n bnd (mates s)" "memo_zero n M0"
  shows "\<exists>M. solve (s\<lparr>memo := M0\<rparr>) = (0, s\<lparr>memo := M\<rparr>) \<and> memo_zero n M"
proof -
  have "search_inv tbl n bnd (mates (s\<lparr>memo := M0\<rparr>)) \<and> memo_zero n (memo (s\<lparr>memo := M0\<rparr>))"
    using assms(2,3) by simp
  with assms(1) obtain M where
    M: "solve (s\<lparr>memo := M0\<rparr>) = (0, s\<lparr>memo := M0\<rparr>\<lparr>memo := M\<rparr>)" "memo_zero n M"
    unfolding good_solve_def by blast
  have "s\<lparr>memo := M0\<rparr>\<lparr>memo := M\<rparr> = s\<lparr>memo := M\<rparr>" by simp
  with M show ?thesis by metis
qed

lemma branch_up_zero:
  assumes g: "good_solve solve tbl n bnd" and inv: "search_inv tbl n bnd (mates st)"
    and k: "valid_key n k" and u: "valid_key n up" and ku: "k \<noteq> up"
    and bk: "bnd \<le> k" and bu: "bnd \<le> up" and m0: "memo_zero n M0"
  shows "\<exists>M. branch_up solve tbl k up (length (mate_stack st)) 0 (st\<lparr>memo := M0\<rparr>)
               = (0, st\<lparr>memo := M\<rparr>) \<and> memo_zero n M"
proof -
  define su where "su = snd (UniteMates tbl k up st)"
  have rv: "\<And>M. RevertMates (length (mate_stack st)) (su\<lparr>memo := M\<rparr>) = st\<lparr>memo := M\<rparr>"
    unfolding su_def by (rule revert_after_unite)
  show ?thesis
  proof (cases "fst (UniteMates tbl k up st)")
    case False
    then have head: "UniteMates tbl k up (st\<lparr>memo := M0\<rparr>) = (False, su\<lparr>memo := M0\<rparr>)"
      by (simp add: UniteMates_memo_indep su_def)
    have "branch_up solve tbl k up (length (mate_stack st)) 0 (st\<lparr>memo := M0\<rparr>)
               = (0, st\<lparr>memo := M0\<rparr>)"
      by (simp add: branch_up_def head rv)
    then show ?thesis using m0 by blast
  next
    case True
    then have head: "UniteMates tbl k up (st\<lparr>memo := M0\<rparr>) = (True, su\<lparr>memo := M0\<rparr>)"
      by (simp add: UniteMates_memo_indep su_def)
    have "search_inv tbl n bnd (mates su)"
      unfolding su_def using inv k u ku bk bu True by (rule UniteMates_search_inv)
    from good_solveD [OF g this m0]
    obtain M where M: "solve (su\<lparr>memo := M0\<rparr>) = (0, su\<lparr>memo := M\<rparr>)" "memo_zero n M"
      by blast
    have "branch_up solve tbl k up (length (mate_stack st)) 0 (st\<lparr>memo := M0\<rparr>)
               = (0, st\<lparr>memo := M\<rparr>)"
      by (simp add: branch_up_def head M(1) rv)
    then show ?thesis using M(2) by blast
  qed
qed

lemma branch_left_zero:
  assumes g: "good_solve solve tbl n bnd" and inv: "search_inv tbl n bnd (mates st)"
    and k: "valid_key n k" and l: "valid_key n left" and kl: "k \<noteq> left"
    and u: "up = -1 \<or> (valid_key n up \<and> k \<noteq> up \<and> bnd \<le> up)"
    and bk: "bnd \<le> k" and bl: "bnd \<le> left" and m0: "memo_zero n M0"
  shows "\<exists>M. branch_left solve tbl k left up (length (mate_stack st)) 0 (st\<lparr>memo := M0\<rparr>)
               = (0, st\<lparr>memo := M\<rparr>) \<and> memo_zero n M"
proof -
  define sl where "sl = snd (UniteMates tbl k left st)"
  define sb where "sb = snd (UniteMates tbl k up sl)"
  have rv1: "\<And>M. RevertMates (length (mate_stack st)) (sl\<lparr>memo := M\<rparr>) = st\<lparr>memo := M\<rparr>"
    unfolding sl_def by (rule revert_after_unite)
  have rv2: "\<And>M. RevertMates (length (mate_stack st)) (sb\<lparr>memo := M\<rparr>) = st\<lparr>memo := M\<rparr>"
    unfolding sb_def sl_def by (rule revert_after_two_unites)
  show ?thesis
  proof (cases "fst (UniteMates tbl k left st)")
    case False
    then have head: "UniteMates tbl k left (st\<lparr>memo := M0\<rparr>) = (False, sl\<lparr>memo := M0\<rparr>)"
      by (simp add: UniteMates_memo_indep sl_def)
    have "branch_left solve tbl k left up (length (mate_stack st)) 0 (st\<lparr>memo := M0\<rparr>)
               = (0, st\<lparr>memo := M0\<rparr>)"
      by (simp add: branch_left_def head rv1)
    then show ?thesis using m0 by blast
  next
    case True
    then have head: "UniteMates tbl k left (st\<lparr>memo := M0\<rparr>) = (True, sl\<lparr>memo := M0\<rparr>)"
      by (simp add: UniteMates_memo_indep sl_def)
    have invl: "search_inv tbl n bnd (mates sl)"
      unfolding sl_def using inv k l kl bk bl True by (rule UniteMates_search_inv)
    from good_solveD [OF g this m0]
    obtain M1 where M1: "solve (sl\<lparr>memo := M0\<rparr>) = (0, sl\<lparr>memo := M1\<rparr>)" "memo_zero n M1"
      by blast
    show ?thesis
    proof (cases "0 \<le> up")
      case False
      have "branch_left solve tbl k left up (length (mate_stack st)) 0 (st\<lparr>memo := M0\<rparr>)
               = (0, st\<lparr>memo := M1\<rparr>)"
        using False by (simp add: branch_left_def head M1(1) rv1)
      then show ?thesis using M1(2) by blast
    next
      case up: True
      then have uv: "valid_key n up" "k \<noteq> up" "bnd \<le> up" using u by auto
      show ?thesis
      proof (cases "fst (UniteMates tbl k up sl)")
        case False
        then have second: "UniteMates tbl k up (sl\<lparr>memo := M1\<rparr>) = (False, sb\<lparr>memo := M1\<rparr>)"
          by (simp add: UniteMates_memo_indep sb_def)
        have "branch_left solve tbl k left up (length (mate_stack st)) 0 (st\<lparr>memo := M0\<rparr>)
               = (0, st\<lparr>memo := M1\<rparr>)"
          using up by (simp add: branch_left_def head M1(1) second rv2)
        then show ?thesis using M1(2) by blast
      next
        case both: True
        then have second: "UniteMates tbl k up (sl\<lparr>memo := M1\<rparr>) = (True, sb\<lparr>memo := M1\<rparr>)"
          by (simp add: UniteMates_memo_indep sb_def)
        have "search_inv tbl n bnd (mates sb)"
          unfolding sb_def using invl k uv(1) uv(2) bk uv(3) both by (rule UniteMates_search_inv)
        from good_solveD [OF g this M1(2)]
        obtain M2 where M2: "solve (sb\<lparr>memo := M1\<rparr>) = (0, sb\<lparr>memo := M2\<rparr>)" "memo_zero n M2"
          by blast
        have "branch_left solve tbl k left up (length (mate_stack st)) 0 (st\<lparr>memo := M0\<rparr>)
               = (0, st\<lparr>memo := M2\<rparr>)"
          using up by (simp add: branch_left_def head M1(1) second M2(1) rv2)
        then show ?thesis using M2(2) by blast
      qed
    qed
  qed
qed

lemma memo_zero_store:
  assumes "memo_zero n M"
  shows "memo_zero n (M[k := (M ! k)(key \<mapsto> 0)])"
proof -
  have l: "length M = n" and z: "\<And>i key c. i < n \<Longrightarrow> (M ! i) key = Some c \<Longrightarrow> c = 0"
    using assms by (auto simp: memo_zero_def)
  have "c = 0" if i: "i < n" and h: "(M[k := (M ! k)(key \<mapsto> 0)] ! i) key' = Some c" for i key' c
  proof (cases "i = k")
    case True
    then have "((M ! k)(key \<mapsto> 0)) key' = Some c" using h i l by simp
    then show ?thesis using z [of k key' c] i True by (cases "key' = key") auto
  next
    case False
    then have "(M ! i) key' = Some c" using h by simp
    then show ?thesis using z [OF i] by simp
  qed
  then show ?thesis using l unfolding memo_zero_def by auto
qed

lemma Connect_zero:
  assumes geo: "geometry_ok B n" and k: "k < n"
    and g: "good_solve (Solve B (int k + 1)) (table B) n (start B ! k)"
    and inv: "search_inv (table B) n (start B ! k) (mates st)"
    and mz: "memo_zero n (memo st)"
  shows "\<exists>M. Connect B (int k) st = (0, st\<lparr>memo := M\<rparr>) \<and> memo_zero n M"
proof -
  define up left where "up = up_key B k" and "left = left_key B k"
  define r where "r = length (mate_stack st)"
  have bs: "board_size B = int n" using geo by (simp add: geometry_ok_def)
  have gk: "start B ! k \<le> int k"
    "up = -1 \<or> (0 \<le> up \<and> start B ! k \<le> up \<and> up < int k)"
    "left = -1 \<or> (0 \<le> left \<and> start B ! k \<le> left \<and> left < int k)"
    using geo k by (simp_all add: geometry_ok_def up_def left_def)
  have vk: "valid_key n (int k)" using k by (simp add: valid_key_def)
  have st_id: "st\<lparr>memo := memo st\<rparr> = st" by simp
  obtain M0 where M0: "Solve B (int k + 1) st = (0, st\<lparr>memo := M0\<rparr>)" "memo_zero n M0"
    using good_solveD [OF g inv mz] unfolding st_id by blast
  have "\<exists>M1. (if 0 \<le> up then branch_up (Solve B (int k + 1)) (table B) (int k) up r 0 (st\<lparr>memo := M0\<rparr>)
               else (0, st\<lparr>memo := M0\<rparr>)) = (0, st\<lparr>memo := M1\<rparr>) \<and> memo_zero n M1"
  proof (cases "0 \<le> up")
    case False
    then show ?thesis using M0(2) by auto
  next
    case True
    then have u: "valid_key n up" "int k \<noteq> up" "start B ! k \<le> up"
      using gk(2) k by (auto simp: valid_key_def)
    show ?thesis
      using branch_up_zero [OF g inv vk u(1) u(2) gk(1) u(3) M0(2)] True by (simp add: r_def)
  qed
  then obtain M1 where M1:
    "(if 0 \<le> up then branch_up (Solve B (int k + 1)) (table B) (int k) up r 0 (st\<lparr>memo := M0\<rparr>)
      else (0, st\<lparr>memo := M0\<rparr>)) = (0, st\<lparr>memo := M1\<rparr>)" "memo_zero n M1"
    by blast
  have "\<exists>M2. (if 0 \<le> left
               then branch_left (Solve B (int k + 1)) (table B) (int k) left up r 0 (st\<lparr>memo := M1\<rparr>)
               else (0, st\<lparr>memo := M1\<rparr>)) = (0, st\<lparr>memo := M2\<rparr>) \<and> memo_zero n M2"
  proof (cases "0 \<le> left")
    case False
    then show ?thesis using M1(2) by auto
  next
    case True
    then have l: "valid_key n left" "int k \<noteq> left" "start B ! k \<le> left"
      using gk(3) k by (auto simp: valid_key_def)
    have u: "up = -1 \<or> (valid_key n up \<and> int k \<noteq> up \<and> start B ! k \<le> up)"
      using gk(2) k by (auto simp: valid_key_def)
    show ?thesis
      using branch_left_zero [OF g inv vk l(1) l(2) u gk(1) l(3) M1(2)] True by (simp add: r_def)
  qed
  then obtain M2 where M2:
    "(if 0 \<le> left
      then branch_left (Solve B (int k + 1)) (table B) (int k) left up r 0 (st\<lparr>memo := M1\<rparr>)
      else (0, st\<lparr>memo := M1\<rparr>)) = (0, st\<lparr>memo := M2\<rparr>)" "memo_zero n M2"
    by blast
  have k0: "0 \<le> int k" "int k < board_size B" using k bs by simp_all
  have "Connect B (int k) st = (0, st\<lparr>memo := M2\<rparr>)"
    unfolding Connect_unfold [OF k0] nat_int up_def [symmetric] left_def [symmetric]
      r_def [symmetric] M0(1)
    by (simp only: prod.case M1(1) M2(1))
  then show ?thesis using M2(2) by blast
qed

lemma Solve_zero:
  assumes geo: "geometry_ok B n" and len: "length (table B) = n"
    and lab: "\<forall>k \<in> {0..<n}. 0 \<le> table B ! k" and v: "0 < v" "odd (count_list (table B) v)"
    and k: "k \<le> n"
    and inv: "search_inv (table B) n (if k = 0 then 0 else start B ! (k - 1)) (mates st)"
    and mz: "memo_zero n (memo st)"
  shows "\<exists>M. Solve B (int k) st = (0, st\<lparr>memo := M\<rparr>) \<and> memo_zero n M"
  using k inv mz
proof (induction "n - k" arbitrary: k st rule: less_induct)
  case less
  note k = less.prems(1) and inv = less.prems(2) and mz = less.prems(3)
  define tbl where "tbl = table B"
  define m where "m = mates st"
  have bs: "board_size B = int n" and sn: "start B ! n = int n"
    using geo by (simp_all add: geometry_ok_def)
  have st_id: "st\<lparr>memo := memo st\<rparr> = st" by simp
  let ?chk = "fixed_cells_ok B st (start B ! nat (int k - 1)) (start B ! nat (int k))"
  let ?hash = "GetHash (mate_tuple B st (int k))"
  have unf: "Solve B (int k) st =
     (if 0 < int k \<and> \<not> ?chk then (0, st)
      else if int k = board_size B then (1, st)
      else case (memo st ! nat (int k)) ?hash of
             None \<Rightarrow>
               (case Connect B (int k) st of
                  (solution_count, st1) \<Rightarrow>
                    (solution_count,
                     st1\<lparr>memo := (memo st1)[nat (int k) :=
                                    (memo st1 ! nat (int k))(?hash \<mapsto> solution_count)]\<rparr>))
           | Some solution_count \<Rightarrow> (solution_count, st))"
  proof -
    have g: "(int k < 0 \<or> board_size B < int k) = False" using k bs by simp
    show ?thesis by (subst Solve.simps) (simp only: g if_False Let_def)
  qed
  show ?case
  proof (cases "0 < int k \<and> \<not> ?chk")
    case True
    then have "Solve B (int k) st = (0, st\<lparr>memo := memo st\<rparr>)" using unf by simp
    then show ?thesis using mz by blast
  next
    case False
    have inv': "search_inv (table B) n (start B ! k) (mates st)"
    proof -
      have fx: "fixed_ok (table B) (mates st) h" if h: "h < n" "int h < start B ! k" for h
      proof (cases "k = 0")
        case True
        show ?thesis
        proof (cases "n = 0")
          case True
          then show ?thesis using h by simp
        next
          case False
          then have "0 < n" by simp
          then have "start B ! 0 \<le> int 0" using geo unfolding geometry_ok_def by blast
          then show ?thesis using h True by simp
        qed
      next
        case kpos: False
        show ?thesis
        proof (cases "int h < start B ! (k - 1)")
          case True
          then show ?thesis using inv kpos h(1) by (simp add: search_inv_def)
        next
          case nb: False
          have c: "?chk" using False kpos by simp
          have "nat (int k - 1) = k - 1" by simp
          then have c': "fixed_cells_ok B st (start B ! (k - 1)) (start B ! k)" using c by simp
          have "\<not> ((table B ! nat (int h) = 0 \<and> mates st ! nat (int h) \<noteq> -1 \<and>
                    mates st ! nat (int h) \<noteq> int h) \<or>
                   (table B ! nat (int h) \<noteq> 0 \<and> mates st ! nat (int h) = int h))"
            using c' [unfolded fixed_cells_ok_iff] nb h(2) by (metis not_less)
          then show ?thesis by (auto simp: fixed_ok_def)
        qed
      qed
      show ?thesis using inv fx by (simp add: search_inv_def)
    qed
    show ?thesis
    proof (cases "k = n")
      case True
      have "search_inv (table B) n (int n) (mates st)" using inv' sn True by simp
      then have "even (count_list (table B) v)" using len lab v(1) by (rule all_fixed_even)
      with v(2) show ?thesis by simp
    next
      case kn: False
      then have klt: "k < n" using k by simp
      have ne: "int k \<noteq> board_size B" using klt bs by simp
      have unf2: "Solve B (int k) st =
        (case (memo st ! k) ?hash of
             None \<Rightarrow>
               (case Connect B (int k) st of
                  (solution_count, st1) \<Rightarrow>
                    (solution_count,
                     st1\<lparr>memo := (memo st1)[k := (memo st1 ! k)(?hash \<mapsto> solution_count)]\<rparr>))
           | Some solution_count \<Rightarrow> (solution_count, st))"
        unfolding unf by (simp only: False ne if_False) (simp only: nat_int)
      show ?thesis
      proof (cases "(memo st ! k) ?hash")
        case (Some c)
        then have "c = 0" using mz klt unfolding memo_zero_def by blast
        then have "Solve B (int k) st = (0, st\<lparr>memo := memo st\<rparr>)" using unf2 Some by simp
        then show ?thesis using mz by blast
      next
        case None
        have g: "good_solve (Solve B (int k + 1)) (table B) n (start B ! k)"
          unfolding good_solve_def
        proof (intro allI impI)
          fix s :: solver
          assume a: "search_inv (table B) n (start B ! k) (mates s) \<and> memo_zero n (memo s)"
          have d: "n - Suc k < n - k" using klt by simp
          have i: "search_inv (table B) n (if Suc k = 0 then 0 else start B ! (Suc k - 1)) (mates s)"
            using a by simp
          have "\<exists>M. Solve B (int (Suc k)) s = (0, s\<lparr>memo := M\<rparr>) \<and> memo_zero n M"
            using less.hyps [OF d _ i] klt a by simp
          moreover have "int (Suc k) = int k + 1" by simp
          ultimately show "\<exists>M. Solve B (int k + 1) s = (0, s\<lparr>memo := M\<rparr>) \<and> memo_zero n M"
            by (simp only:)
        qed
        obtain M where M: "Connect B (int k) st = (0, st\<lparr>memo := M\<rparr>)" "memo_zero n M"
          using Connect_zero [OF geo klt g inv' mz] by blast
        have "Solve B (int k) st = (0, st\<lparr>memo := M[k := (M ! k)(?hash \<mapsto> 0)]\<rparr>)"
          using unf2 None M(1) by simp
        then show ?thesis using memo_zero_store [OF M(2)] by blast
      qed
    qed
  qed
qed

lemma geometry_ok_table [simp]: "geometry_ok (B\<lparr>table := tbl\<rparr>) n = geometry_ok B n"
  by (simp add: geometry_ok_def up_key_def left_key_def GetCellKey_def)

lemma search_inv_init:
  "search_inv tbl n 0 (map int [0..<n])"
  by (simp add: search_inv_def mates_wf_def)

lemma memo_zero_init: "memo_zero n (replicate n Map.empty)"
  by (simp add: memo_zero_def)

section \<open>Reading the board\<close>

lemma key_inj:
  assumes ok: "board_ok w h B" and pos: "0 < w" "0 < h"
    and g: "in_grid w h x1 y1" "in_grid w h x2 y2"
    and e: "GetCellKey B x1 y1 = GetCellKey B x2 y2"
  shows "x1 = x2 \<and> y1 = y2"
proof -
  obtain i where i: "cell_x B ! i = x1" "cell_y B ! i = y1" "GetCellKey B x1 y1 = int i"
    using board_cells(4) [OF ok pos g(1)] by blast
  obtain j where j: "cell_x B ! j = x2" "cell_y B ! j = y2" "GetCellKey B x2 y2 = int j"
    using board_cells(4) [OF ok pos g(2)] by blast
  have "i = j" using e i(3) j(3) by simp
  then show ?thesis using i j by simp
qed

lemma key_valid:
  assumes ok: "board_ok w h B" and pos: "0 < w" "0 < h" and g: "in_grid w h x y"
  shows "0 \<le> GetCellKey B x y \<and> nat (GetCellKey B x y) < nat (w * h)"
  using board_cells(4) [OF ok pos g] by auto

lemma GetCellKey_table [simp]: "GetCellKey (B\<lparr>table := t\<rparr>) x y = GetCellKey B x y"
  by (simp add: GetCellKey_def)

lemma read_cells_spec:
  assumes ok: "board_ok w h B0" and pos: "0 < w" "0 < h"
    and vals: "length vals = nat (w * h)"
  shows "B = B0\<lparr>table := t\<rparr> \<Longrightarrow> length t = nat (w * h) \<Longrightarrow>
         0 \<le> x \<Longrightarrow> x \<le> w \<Longrightarrow> 0 \<le> y \<Longrightarrow> y \<le> h \<Longrightarrow> y < h \<or> x = 0 \<Longrightarrow>
         input = drop (nat (y * w + x)) vals \<Longrightarrow>
         (\<forall>u v. in_grid w h u v \<and> v * w + u < y * w + x \<longrightarrow>
                 t ! nat (GetCellKey B0 u v) = to_char (vals ! nat (v * w + u))) \<Longrightarrow>
         \<exists>t'. read_cells B x y input = Some (B0\<lparr>table := t'\<rparr>) \<and> length t' = nat (w * h) \<and>
              (\<forall>u v. in_grid w h u v \<longrightarrow> t' ! nat (GetCellKey B0 u v) = to_char (vals ! nat (v * w + u)))"
proof (induction B x y input arbitrary: t rule: read_cells.induct)
  case (1 B x y input)
  note B = "1.prems"(1) and lt = "1.prems"(2) and xy = "1.prems"(3-7)
    and inp = "1.prems"(8) and dn = "1.prems"(9)
  have wd: "width B0 = w" "height B0 = h"
    using ok by (simp_all add: board_ok_def keys_inv_def)
  have hw: "height B = h" "width B = w" using B wd by simp_all
  show ?case
  proof (cases "y < h")
    case False
    then have y: "y = h" "x = 0" using xy by simp_all
    have "read_cells B x y input = Some B" using False hw by (subst read_cells.simps) simp
    moreover have "t ! nat (GetCellKey B0 u v) = to_char (vals ! nat (v * w + u))" if g: "in_grid w h u v" for u v
    proof -
      have "v * w + u < w * h" using pos_bound [OF g] by simp
      then have "v * w + u < y * w + x" using y by (simp add: mult.commute)
      then show ?thesis using dn g by blast
    qed
    ultimately show ?thesis using B lt by blast
  next
    case yh: True
    show ?thesis
    proof (cases "x < w")
      case False
      then have x: "x = w" using xy by simp
      have unf: "read_cells B x y input = read_cells B 0 (y + 1) input"
        using yh False hw by (subst read_cells.simps) simp
      have p: "(y + 1) * w + 0 = y * w + x" using x by (simp add: algebra_simps)
      have c1: "y < height B" using yh hw by simp
      have c2: "\<not> x < width B" using False hw by simp
      have "\<exists>t'. read_cells B 0 (y + 1) input = Some (B0\<lparr>table := t'\<rparr>) \<and> length t' = nat (w * h) \<and>
              (\<forall>u v. in_grid w h u v \<longrightarrow> t' ! nat (GetCellKey B0 u v) = to_char (vals ! nat (v * w + u)))"
        using B lt pos(1) xy(3) yh inp dn unfolding p [symmetric]
        by (intro "1.IH"(2) [OF c1 c2, of t]) simp_all
      then show ?thesis using unf by simp
    next
      case xw: True
      have g: "in_grid w h x y" using xy xw yh by (simp add: in_grid_def)
      have pb: "0 \<le> y * w + x" "y * w + x < w * h" using pos_bound [OF g] by simp_all
      define p where "p = nat (y * w + x)"
      have pn: "p < length vals" using pb vals by (simp add: p_def)
      have inp': "input = vals ! p # drop (Suc p) vals"
        using inp pn by (simp add: p_def Cons_nth_drop_Suc)
      define t1 where "t1 = t[nat (GetCellKey B0 x y) := to_char (vals ! p)]"
      define B1 where "B1 = B\<lparr>table := (table B)[nat (GetCellKey B x y) := to_char (vals ! p)]\<rparr>"
      have B1: "B1 = B0\<lparr>table := t1\<rparr>" using B by (simp add: B1_def t1_def)
      have unf: "read_cells B x y input = read_cells B1 (x + 1) y (drop (Suc p) vals)"
        using yh xw hw inp' by (subst read_cells.simps) (simp add: B1_def)
      have kv: "nat (GetCellKey B0 x y) < length t" using key_valid [OF ok pos g] lt by simp
      have dn1: "\<forall>u v. in_grid w h u v \<and> v * w + u < y * w + (x + 1) \<longrightarrow>
                 t1 ! nat (GetCellKey B0 u v) = to_char (vals ! nat (v * w + u))"
      proof (intro allI impI)
        fix u v assume a: "in_grid w h u v \<and> v * w + u < y * w + (x + 1)"
        then have guv: "in_grid w h u v" by simp
        show "t1 ! nat (GetCellKey B0 u v) = to_char (vals ! nat (v * w + u))"
        proof (cases "v * w + u = y * w + x")
          case True
          then have "u = x \<and> v = y" using pos_inj [OF guv g] by simp
          then show ?thesis using kv by (simp add: t1_def p_def)
        next
          case False
          then have less: "v * w + u < y * w + x" using a by simp
          have "\<not> (u = x \<and> v = y)" using False by auto
          then have "GetCellKey B0 u v \<noteq> GetCellKey B0 x y"
            using key_inj [OF ok pos guv g] by blast
          moreover have "0 \<le> GetCellKey B0 u v" "0 \<le> GetCellKey B0 x y"
            using key_valid [OF ok pos guv] key_valid [OF ok pos g] by simp_all
          ultimately have "nat (GetCellKey B0 u v) \<noteq> nat (GetCellKey B0 x y)"
            by (simp add: eq_nat_nat_iff)
          then have "t1 ! nat (GetCellKey B0 u v) = t ! nat (GetCellKey B0 u v)"
            by (simp add: t1_def)
          then show ?thesis using dn guv less by simp
        qed
      qed
      have nx: "nat (y * w + (x + 1)) = Suc p" using pb by (simp add: p_def add.assoc [symmetric] nat_add_distrib)
      have c1: "y < height B" using yh hw by simp
      have c2: "x < width B" using xw hw by simp
      have "\<exists>t'. read_cells B1 (x + 1) y (drop (Suc p) vals) = Some (B0\<lparr>table := t'\<rparr>) \<and>
              length t' = nat (w * h) \<and>
              (\<forall>u v. in_grid w h u v \<longrightarrow> t' ! nat (GetCellKey B0 u v) = to_char (vals ! nat (v * w + u)))"
      proof (rule "1.IH"(1) [OF c1 c2 inp', of t1, folded B1_def])
        show "B1 = B0\<lparr>table := t1\<rparr>" by (rule B1)
        show "length t1 = nat (w * h)" using lt by (simp add: t1_def)
        show "0 \<le> x + 1" using xy by simp
        show "x + 1 \<le> w" using xw by simp
        show "0 \<le> y" using xy by simp
        show "y \<le> h" using xy by simp
        show "y < h \<or> x + 1 = 0" using yh by simp
        show "drop (Suc p) vals = drop (nat (y * w + (x + 1))) vals" using nx by simp
        show "\<forall>u v. in_grid w h u v \<and> v * w + u < y * w + (x + 1) \<longrightarrow>
                 t1 ! nat (GetCellKey B0 u v) = to_char (vals ! nat (v * w + u))" by (rule dn1)
      qed
      then show ?thesis using unf by simp
    qed
  qed
qed

lemma stored_count:
  assumes ok: "board_ok w h B" and pos: "0 < w" "0 < h"
    and lt: "length t = nat (w * h)" and lv: "length vals = nat (w * h)"
    and st: "\<forall>u v. in_grid w h u v \<longrightarrow> t ! nat (GetCellKey B u v) = vals ! nat (v * w + u)"
  shows "count_list t a = count_list vals a"
proof -
  define n where "n = nat (w * h)"
  define p where "p = (\<lambda>j. nat (cell_y B ! j * w + cell_x B ! j))"
  note cells = board_cells [OF ok pos, folded n_def]
  have pj: "p j < n \<and> t ! j = vals ! p j" if j: "j < n" for j
  proof -
    have g: "in_grid w h (cell_x B ! j) (cell_y B ! j)" using cells(1) [OF j] .
    have "t ! nat (GetCellKey B (cell_x B ! j) (cell_y B ! j)) = vals ! p j"
      using st g by (simp add: p_def)
    then have "t ! j = vals ! p j" using cells(2) [OF j] by simp
    moreover have "p j < n" using pos_bound [OF g] by (simp add: p_def n_def)
    ultimately show ?thesis by simp
  qed
  have inj: "inj_on p {..<n}"
  proof (rule inj_onI)
    fix i j assume a: "i \<in> {..<n}" "j \<in> {..<n}" "p i = p j"
    have gi: "in_grid w h (cell_x B ! i) (cell_y B ! i)" using cells(1) a(1) by simp
    have gj: "in_grid w h (cell_x B ! j) (cell_y B ! j)" using cells(1) a(2) by simp
    have "cell_y B ! i * w + cell_x B ! i = cell_y B ! j * w + cell_x B ! j"
      using a(3) pos_bound [OF gi] pos_bound [OF gj] by (simp add: p_def eq_nat_nat_iff)
    then have e: "cell_x B ! i = cell_x B ! j \<and> cell_y B ! i = cell_y B ! j"
      using pos_inj [OF gi gj] by simp
    have "int i = GetCellKey B (cell_x B ! i) (cell_y B ! i)" using cells(2) a(1) by simp
    also have "\<dots> = GetCellKey B (cell_x B ! j) (cell_y B ! j)" using e by simp
    also have "\<dots> = int j" using cells(2) a(2) by simp
    finally show "i = j" by simp
  qed
  have "p ` {..<n} \<subseteq> {..<n}" using pj by auto
  moreover have "card (p ` {..<n}) = card {..<n}" using inj by (rule card_image)
  ultimately have surj: "p ` {..<n} = {..<n}" by (intro card_subset_eq) simp_all
  have img: "p ` {j. j < n \<and> t ! j = a} = {q. q < n \<and> vals ! q = a}"
  proof (intro set_eqI iffI)
    fix q assume "q \<in> p ` {j. j < n \<and> t ! j = a}"
    then obtain j where "j < n" "t ! j = a" "q = p j" by blast
    then show "q \<in> {q. q < n \<and> vals ! q = a}" using pj [of j] by simp
  next
    fix q assume "q \<in> {q. q < n \<and> vals ! q = a}"
    then have q: "q < n" "vals ! q = a" by simp_all
    then have "q \<in> p ` {..<n}" using surj by simp
    then obtain j where j: "j < n" "q = p j" by blast
    then have "t ! j = a" using pj [OF j(1)] q(2) by simp
    then show "q \<in> p ` {j. j < n \<and> t ! j = a}" using j by blast
  qed
  have "inj_on p {j. j < n \<and> t ! j = a}" using inj by (rule inj_on_subset) auto
  then have "card (p ` {j. j < n \<and> t ! j = a}) = card {j. j < n \<and> t ! j = a}"
    by (rule card_image)
  then have "card {j. j < n \<and> t ! j = a} = card {q. q < n \<and> vals ! q = a}"
    unfolding img by simp
  then show ?thesis using lt lv by (simp add: count_list_card n_def)
qed

section \<open>Facts about the driver\<close>

text \<open>
  With a negative width or height no coordinate is ever on the board: the do-while loop of
  \<open>Initialize\<close> does not end.
\<close>

lemma next_cell_never:
  assumes "w < 0 \<or> (h < 0 \<and> 0 \<le> y)"
  shows "next_cell w h x y = None"
proof (cases "next_cell w h x y")
  case None then show ?thesis .
next
  case (Some r)
  have step: "\<not> (w < 0 \<or> (h < 0 \<and> 0 \<le> y))"
    if IH: "\<And>w h x y r. nc w h x y = Some r \<Longrightarrow> \<not> (w < 0 \<or> (h < 0 \<and> 0 \<le> y))"
      and eq: "(let x1 = x - 1; y1 = y + 1; x2 = if x1 < 0 then y1 else x1;
                    y2 = if x1 < 0 then 0 else y1
                in if x2 < 0 \<or> w \<le> x2 \<or> y2 < 0 \<or> h \<le> y2 then nc w h x2 y2
                   else Some (x2, y2)) = Some r"
    for nc :: "int \<Rightarrow> int \<Rightarrow> int \<Rightarrow> int \<Rightarrow> (int \<times> int) option" and w h x y r
  proof
    assume a: "w < 0 \<or> (h < 0 \<and> 0 \<le> y)"
    let ?x2 = "if x - 1 < 0 then y + 1 else x - 1"
    let ?y2 = "if x - 1 < 0 then 0 else y + 1"
    have c: "?x2 < 0 \<or> w \<le> ?x2 \<or> ?y2 < 0 \<or> h \<le> ?y2" using a by auto
    have "nc w h ?x2 ?y2 = Some r" using eq c unfolding Let_def by (simp only: if_True)
    then have "\<not> (w < 0 \<or> (h < 0 \<and> 0 \<le> ?y2))" by (rule IH)
    then show False using a by (auto split: if_splits)
  qed
  have "\<not> (w < 0 \<or> (h < 0 \<and> 0 \<le> y))"
  proof -
    note r = next_cell.raw_induct [where P = "\<lambda>w h x y r. \<not> (w < 0 \<or> (h < 0 \<and> 0 \<le> y))"
             and xa = "(((w, h), x), y)" and ya = r, unfolded prod.case]
    show ?thesis
    proof (rule r)
      show "next_cell w h x y = Some r" by (rule Some)
    next
      fix nc :: "int \<Rightarrow> int \<Rightarrow> int \<Rightarrow> int \<Rightarrow> (int \<times> int) option" and w h x y r
      assume IH: "\<And>w h x y r. nc w h x y = Some r \<Longrightarrow> \<not> (w < 0 \<or> (h < 0 \<and> 0 \<le> y))"
      and eq: "(let x1 = x - 1; y1 = y + 1; x2 = if x1 < 0 then y1 else x1;
                    y2 = if x1 < 0 then 0 else y1
                in if x2 < 0 \<or> w \<le> x2 \<or> y2 < 0 \<or> h \<le> y2 then nc w h x2 y2
                   else Some (x2, y2)) = Some r"
      show "\<not> (w < 0 \<or> (h < 0 \<and> 0 \<le> y))" using IH eq by (rule step)
    qed
  qed
  with assms show ?thesis by blast
qed

text \<open>
  A negative cell number counts as a number in the check of the fixed cells of \<open>Solve\<close>
  and as a blank in the checks of \<open>UniteMates\<close>, so it can end a line that starts at any
  positive number: the board of width 2 and height 1 read from the numbers 5 and 255 holds
  the cell numbers 5 and \<open>-1\<close> and has one solution.
\<close>

lemma negative_number_ends_line:
  "case NumberLink 2 1 of
     Inl e \<Rightarrow> False
   | Inr nl \<Rightarrow>
       (case Initialize nl of
          None \<Rightarrow> False
        | Some (B, st) \<Rightarrow>
            (case read_cells B 0 0 [5, 255] of
               None \<Rightarrow> False
             | Some B' \<Rightarrow> table B' = [5, -1] \<and> fst (Solve B' 0 st) = 1))"
  by code_simp

text \<open>The board \<open>line_board\<close> and the state \<open>line_state\<close> are what the program builds.\<close>

lemma line_board_read:
  "case NumberLink 3 1 of
     Inl e \<Rightarrow> False
   | Inr nl \<Rightarrow>
       (case Initialize nl of
          None \<Rightarrow> False
        | Some (B, st) \<Rightarrow> read_cells B 0 0 [1, 0, 1] = Some line_board)"
  by code_simp

lemma line_state_reached:
  "\<exists>nl B st. NumberLink 3 1 = Inr nl \<and> Initialize nl = Some (B, st) \<and>
      read_cells B 0 0 [1, 0, 1] = Some line_board \<and>
      UniteMates (table line_board) 1 0 st = (True, line_state)"
proof -
  have "(0::int) < 3" "(0::int) < 1" "(3::int) * 1 \<le> 32767" by simp_all
  from Initialize_ok [OF this]
  obtain nl B where i: "NumberLink 3 1 = Inr nl"
    "Initialize nl = Some (B, \<lparr>mates = map int [0..<nat (3 * 1)], mate_stack = [],
                                 memo = replicate (nat (3 * 1)) Map.empty\<rparr>)"
    by blast
  have r: "read_cells B 0 0 [1, 0, 1] = Some line_board"
    using line_board_read by (simp add: i)
  have "UniteMates (table line_board) 1 0
          \<lparr>mates = map int [0..<nat (3 * 1)], mate_stack = [],
             memo = replicate (nat (3 * 1)) Map.empty\<rparr> = (True, line_state)"
    by (simp add: UniteMates_def ChangeMates_def Let_def line_board_def line_state_def
                  upt_rec numeral_3_eq_3)
  then show ?thesis using i r by blast
qed

section \<open>Claims about the cell order and the search\<close>

text \<open>
  Claim C7, as stated: for every board of positive width and height the key assignment is
  a bijection in anti-diagonal order. For width 200 and height 200 the constructor
  converts the cell count 40000 to \<open>short\<close>, which gives \<open>-25536\<close>, and the construction of the
  vectors throws a length error: no key is assigned.
\<close>

theorem anti_diagonal_order_counterexample:
  "NumberLink 200 200 = Inl LengthError"
  by (simp add: NumberLink_def to_short_def)

text \<open>
  Claim C7, amended. For a board of positive width and height whose cell count fits the
  key type (at most 32767 cells), the constructor and \<open>Initialize\<close> return, every coordinate
  of the board has a key in \<open>0 .. width * height - 1\<close> whose stored coordinate is that
  coordinate, every key in that range is the key of its stored coordinate (so the
  assignment is a bijection), and one key is smaller than another exactly when its
  coordinate lies on an earlier anti-diagonal, or on the same one with a larger \<open>x\<close>.
\<close>

theorem anti_diagonal_order:
  assumes "0 < w" "0 < h" "w * h \<le> 32767"
  shows "\<exists>nl B st. NumberLink w h = Inr nl \<and> Initialize nl = Some (B, st) \<and>
     (\<forall>x y. 0 \<le> x \<and> x < w \<and> 0 \<le> y \<and> y < h \<longrightarrow>
        0 \<le> GetCellKey B x y \<and> GetCellKey B x y < w * h \<and>
        cell_x B ! nat (GetCellKey B x y) = x \<and> cell_y B ! nat (GetCellKey B x y) = y) \<and>
     (\<forall>k. 0 \<le> k \<and> k < w * h \<longrightarrow>
        0 \<le> cell_x B ! nat k \<and> cell_x B ! nat k < w \<and>
        0 \<le> cell_y B ! nat k \<and> cell_y B ! nat k < h \<and>
        GetCellKey B (cell_x B ! nat k) (cell_y B ! nat k) = k) \<and>
     (\<forall>x1 y1 x2 y2.
        0 \<le> x1 \<and> x1 < w \<and> 0 \<le> y1 \<and> y1 < h \<and> 0 \<le> x2 \<and> x2 < w \<and> 0 \<le> y2 \<and> y2 < h \<longrightarrow>
        (GetCellKey B x1 y1 < GetCellKey B x2 y2 \<longleftrightarrow>
           x1 + y1 < x2 + y2 \<or> (x1 + y1 = x2 + y2 \<and> x1 > x2)))"
proof -
  obtain nl B st where i: "NumberLink w h = Inr nl" "Initialize nl = Some (B, st)"
    and ok: "board_ok w h B"
    using Initialize_ok [OF assms] by blast
  note pos = assms(1,2)
  have a: "0 \<le> GetCellKey B x y \<and> GetCellKey B x y < w * h \<and>
        cell_x B ! nat (GetCellKey B x y) = x \<and> cell_y B ! nat (GetCellKey B x y) = y"
    if "0 \<le> x \<and> x < w \<and> 0 \<le> y \<and> y < h" for x y
  proof -
    have "in_grid w h x y" using that by (simp add: in_grid_def)
    then obtain j where "j < nat (w * h)" "cell_x B ! j = x" "cell_y B ! j = y"
      "GetCellKey B x y = int j"
      using board_cells(4) [OF ok pos] by blast
    then show ?thesis by auto
  qed
  have b: "0 \<le> cell_x B ! nat k \<and> cell_x B ! nat k < w \<and>
        0 \<le> cell_y B ! nat k \<and> cell_y B ! nat k < h \<and>
        GetCellKey B (cell_x B ! nat k) (cell_y B ! nat k) = k"
    if "0 \<le> k \<and> k < w * h" for k
  proof -
    have k: "nat k < nat (w * h)" using that by simp
    show ?thesis
      using board_cells(1) [OF ok pos k] board_cells(2) [OF ok pos k] that
      by (simp add: in_grid_def)
  qed
  have c: "GetCellKey B x1 y1 < GetCellKey B x2 y2 \<longleftrightarrow>
           x1 + y1 < x2 + y2 \<or> (x1 + y1 = x2 + y2 \<and> x1 > x2)"
    if "0 \<le> x1 \<and> x1 < w \<and> 0 \<le> y1 \<and> y1 < h \<and> 0 \<le> x2 \<and> x2 < w \<and> 0 \<le> y2 \<and> y2 < h"
    for x1 y1 x2 y2
  proof -
    have g: "in_grid w h x1 y1" "in_grid w h x2 y2" using that by (simp_all add: in_grid_def)
    show ?thesis
      unfolding key_order [OF ok pos g] using that by (intro diag_rank_less_iff) simp_all
  qed
  show ?thesis using i a b c by blast
qed

theorem anti_diagonal_order_witness:
  "\<exists>nl B st. NumberLink 2 2 = Inr nl \<and> Initialize nl = Some (B, st) \<and>
      GetCellKey B 1 0 < GetCellKey B 0 1 \<and> GetCellKey B 0 1 < GetCellKey B 1 1"
proof -
  have "(0::int) < 2" "(2::int) * 2 \<le> 32767" by simp_all
  from anti_diagonal_order [OF this(1) this(1) this(2)]
  obtain nl B st where a: "NumberLink 2 2 = Inr nl" "Initialize nl = Some (B, st)"
    and ord: "\<forall>x1 y1 x2 y2.
        0 \<le> x1 \<and> x1 < 2 \<and> 0 \<le> y1 \<and> y1 < 2 \<and> 0 \<le> x2 \<and> x2 < 2 \<and> 0 \<le> y2 \<and> y2 < 2 \<longrightarrow>
        (GetCellKey B x1 y1 < GetCellKey B x2 y2 \<longleftrightarrow>
           x1 + y1 < x2 + y2 \<or> (x1 + y1 = x2 + y2 \<and> x1 > x2))"
    by blast
  have "GetCellKey B 1 0 < GetCellKey B 0 1" using ord [rule_format, of 1 0 0 1] by simp
  moreover have "GetCellKey B 0 1 < GetCellKey B 1 1" using ord [rule_format, of 0 1 1 1] by simp
  ultimately show ?thesis using a by blast
qed

text \<open>
  Claim C1. A call of \<open>Solve\<close> at a key \<open>k\<close> with \<open>0 < k \<le> size_\<close> returns 0, leaving the
  state as it is, when some cell \<open>h\<close> with \<open>start_[k - 1] \<le> h < start_[k]\<close> is blank with an
  entry that is neither \<open>-1\<close> nor \<open>h\<close>, or is numbered with the entry \<open>h\<close>. In every other
  case it goes on: it returns 1 at \<open>k = size_\<close>, and otherwise the memoised count of
  \<open>Connect\<close>.
\<close>

theorem retire_check:
  assumes "0 < k" "k \<le> board_size B"
  shows "(if \<exists>h. start B ! nat (k - 1) \<le> h \<and> h < start B ! nat k \<and>
            ((table B ! nat h = 0 \<and> mates st ! nat h \<noteq> -1 \<and> mates st ! nat h \<noteq> h) \<or>
             (table B ! nat h \<noteq> 0 \<and> mates st ! nat h = h))
          then Solve B k st = (0, st)
          else Solve B k st =
            (if k = board_size B then (1, st)
             else case (memo st ! nat k) (GetHash (mate_tuple B st k)) of
                    None \<Rightarrow>
                      (case Connect B k st of
                         (solution_count, st1) \<Rightarrow>
                           (solution_count,
                            st1\<lparr>memo := (memo st1)[nat k :=
                                   (memo st1 ! nat k)(GetHash (mate_tuple B st k) \<mapsto> solution_count)]\<rparr>))
                  | Some solution_count \<Rightarrow> (solution_count, st)))"
proof -
  let ?cont = "(if k = board_size B then (1, st)
             else case (memo st ! nat k) (GetHash (mate_tuple B st k)) of
                    None \<Rightarrow>
                      (case Connect B k st of
                         (solution_count, st1) \<Rightarrow>
                           (solution_count,
                            st1\<lparr>memo := (memo st1)[nat k :=
                                   (memo st1 ! nat k)(GetHash (mate_tuple B st k) \<mapsto> solution_count)]\<rparr>))
                  | Some solution_count \<Rightarrow> (solution_count, st))"
  have unf: "Solve B k st =
      (if \<not> fixed_cells_ok B st (start B ! nat (k - 1)) (start B ! nat k) then (0, st)
       else ?cont)"
    using assms by (subst Solve.simps) (simp add: Let_def)
  show ?thesis
    unfolding unf fixed_cells_ok_iff by (simp only: not_not if_distrib [of "\<lambda>r. r = _"] split: if_split) blast
qed

theorem retire_check_witness:
  "Solve example_board 1 \<lparr>mates = [0], mate_stack = [], memo = [Map.empty]\<rparr>
     = (0, \<lparr>mates = [0], mate_stack = [], memo = [Map.empty]\<rparr>)"
proof -
  let ?st = "\<lparr>mates = [0], mate_stack = [], memo = [Map.empty :: Hash \<rightharpoonup> nat]\<rparr>"
  have k: "(0::int) < 1" "1 \<le> board_size example_board" by (simp_all add: example_board_def)
  have bad: "\<exists>h. start example_board ! nat (1 - 1) \<le> h \<and> h < start example_board ! nat 1 \<and>
            ((table example_board ! nat h = 0 \<and> mates ?st ! nat h \<noteq> -1 \<and> mates ?st ! nat h \<noteq> h) \<or>
             (table example_board ! nat h \<noteq> 0 \<and> mates ?st ! nat h = h))"
    by (intro exI [of _ 0]) (simp add: example_board_def)
  show ?thesis using retire_check [OF k, of ?st] bad by (simp only: if_True)
qed

text \<open>
  Claim C3, as stated: the fingerprint at an index is computed over the entries of
  \<open>mates_\<close> from \<open>start_[index - 1]\<close> up to the index. On the board of width 3 and height
  1, at index 2, the vector hashed by \<open>Solve\<close> is \<open>[mates_[1]]\<close>, while the slice from
  \<open>start_[1]\<close> is \<open>[mates_[0], mates_[1]]\<close>, and the two have different fingerprints.
\<close>

theorem memo_fingerprint_slice_counterexample:
  "case NumberLink 3 1 of
     Inl e \<Rightarrow> False
   | Inr nl \<Rightarrow>
       (case Initialize nl of
          None \<Rightarrow> False
        | Some (B, st) \<Rightarrow>
            mate_tuple B st 2 = [1] \<and>
            drop (nat (start B ! nat (2 - 1))) (take (nat 2) (mates st)) = [0, 1] \<and>
            GetHash (mate_tuple B st 2) \<noteq>
              GetHash (drop (nat (start B ! nat (2 - 1))) (take (nat 2) (mates st))))"
  by code_simp

text \<open>
  Claim C3, amended: at every key \<open>k < size_\<close> that passes the check of the newly fixed
  cells, the fingerprint that \<open>Solve\<close> looks up, and under which it stores the count of
  \<open>Connect\<close>, is the hash of exactly the entries \<open>mates_[start_[k]], ..., mates_[k - 1]\<close>:
  the slice starts at the look-back key of \<open>k\<close> itself.
\<close>

theorem memo_fingerprint_slice:
  assumes "0 \<le> k" "k < board_size B"
    and "0 \<le> start B ! nat k" "start B ! nat k \<le> k" "nat k \<le> length (mates st)"
    and "k = 0 \<or> fixed_cells_ok B st (start B ! nat (k - 1)) (start B ! nat k)"
  shows "Solve B k st =
     (case (memo st ! nat k) (GetHash (map (\<lambda>i. mates st ! i) [nat (start B ! nat k)..<nat k])) of
        None \<Rightarrow>
          (case Connect B k st of
             (solution_count, st1) \<Rightarrow>
               (solution_count,
                st1\<lparr>memo := (memo st1)[nat k := (memo st1 ! nat k)
                   (GetHash (map (\<lambda>i. mates st ! i) [nat (start B ! nat k)..<nat k])
                      \<mapsto> solution_count)]\<rparr>))
      | Some solution_count \<Rightarrow> (solution_count, st))"
proof -
  have "Solve B k st =
     (case (memo st ! nat k) (GetHash (mate_tuple B st k)) of
        None \<Rightarrow>
          (case Connect B k st of
             (solution_count, st1) \<Rightarrow>
               (solution_count,
                st1\<lparr>memo := (memo st1)[nat k := (memo st1 ! nat k)
                   (GetHash (mate_tuple B st k) \<mapsto> solution_count)]\<rparr>))
      | Some solution_count \<Rightarrow> (solution_count, st))"
    using assms(1,2,6) by (subst Solve.simps) (auto simp: Let_def)
  then show ?thesis unfolding mate_tuple_slice [OF assms(3-5)] .
qed

theorem memo_fingerprint_slice_witness:
  "fst (Solve line_board 2 line_state) = 1 \<and>
   (memo (snd (Solve line_board 2 line_state)) ! 2) (GetHash [mates line_state ! 1]) = Some 1 \<and>
   (memo (snd (Solve line_board 2 line_state)) ! 2)
      (GetHash [mates line_state ! 0, mates line_state ! 1]) = None"
proof -
  let ?B = line_board and ?st = line_state
  have h: "(0::int) \<le> 2" "2 < board_size ?B" "0 \<le> start ?B ! nat 2" "start ?B ! nat 2 \<le> 2"
    "nat 2 \<le> length (mates ?st)"
    "(2::int) = 0 \<or> fixed_cells_ok ?B ?st (start ?B ! nat (2 - 1)) (start ?B ! nat 2)"
    by (simp_all add: line_board_def line_state_def fixed_cells_ok.simps)
  have sl: "map (\<lambda>i. mates ?st ! i) [nat (start ?B ! nat 2)..<nat 2] = [0]"
    by code_simp
  have lk: "(memo ?st ! nat 2) (GetHash [0]) = None" by (simp add: line_state_def)
  have c: "fst (Connect ?B 2 ?st) = 1" by code_simp
  have m: "(memo (snd (Connect ?B 2 ?st)) ! 2) (GetHash [1, 0]) = None" by code_simp
  have len: "length (memo (snd (Connect ?B 2 ?st))) = 3" by code_simp
  have hne: "GetHash [1, 0] \<noteq> GetHash [0]" by code_simp
  have ms: "mates ?st ! 0 = 1" "mates ?st ! 1 = 0" by (simp_all add: line_state_def)
  have "Solve ?B 2 ?st =
     (case Connect ?B 2 ?st of
        (solution_count, st1) \<Rightarrow>
          (solution_count,
           st1\<lparr>memo := (memo st1)[nat 2 := (memo st1 ! nat 2)(GetHash [0] \<mapsto> solution_count)]\<rparr>))"
    using memo_fingerprint_slice [OF h] unfolding sl lk by (simp only: option.case)
  then show ?thesis unfolding ms using c m len hne by (simp add: split_beta)
qed

text \<open>
  Claim C9, as stated: the cell indexer fails with an invalid-dimensions error when the
  width or the height is at most 0. With width \<open>-1\<close> and height \<open>-1\<close> the driver
  constructs a solver of one cell and \<open>Initialize\<close> assigns key 0 to the coordinate (0, 0).
\<close>

theorem main_setup_counterexample:
  "case main_setup (-1) (-1) of
     Ready B st \<Rightarrow> keys B = [0] \<and> cell_x B = [0] \<and> cell_y B = [0] \<and> board_size B = 1
   | _ \<Rightarrow> False"
  by code_simp

text \<open>
  Claim C9, amended. The program has no invalid-dimensions error and does not check the
  sign of the dimensions. Given a width or a height that is at most 0: when one of them is
  0, the driver ends its input loop, without an error and without constructing a solver.
  Otherwise, the product \<open>(short)width * height\<close> being in the range of \<open>int\<close>, let \<open>size_\<close> be
  that product converted to \<open>short\<close>. When \<open>size_ < 0\<close>, the vectors of the solver cannot be
  constructed (a length error). When \<open>size_ = 1\<close>, as for
  width \<open>-1\<close> and height \<open>-1\<close>, \<open>Initialize\<close> returns with key 0 assigned to the coordinate
  (0, 0). When \<open>size_ > 1\<close>, as for width \<open>-200\<close> and height 200, \<open>Initialize\<close> assigns key 0
  and its do-while loop then never finds a coordinate on the board, so it does not return
  and no key assignment is handed on (the coordinates of the loop are unbounded integers
  here; in the source they would leave the range of \<open>int\<close> only after more than \<open>2^61\<close>
  rounds). (When \<open>size_ = 0\<close> the source writes into an empty
  vector, which is undefined; the statement leaves this case out.)
\<close>

theorem main_setup_no_keys:
  "(w = 0 \<or> h = 0 \<longrightarrow> main_setup w h = Stop) \<and>
   (w \<noteq> 0 \<and> h \<noteq> 0 \<and> (w < 0 \<or> h < 0) \<and>
    - 2147483648 \<le> to_short w * h \<and> to_short w * h \<le> 2147483647 \<longrightarrow>
      (to_short (to_short w * h) < 0 \<longrightarrow> main_setup w h = Throws LengthError) \<and>
      (to_short (to_short w * h) = 1 \<longrightarrow>
         main_setup w h =
           Ready \<lparr>width = w, height = h, board_size = 1, cell_x = [0], cell_y = [0],
                   table = [0], keys = [0], start = [0, 1]\<rparr>
                 \<lparr>mates = [0], mate_stack = [], memo = [Map.empty]\<rparr>) \<and>
      (1 < to_short (to_short w * h) \<longrightarrow> main_setup w h = NoReturn))"
proof -
  define sz where "sz = to_short (to_short w * h)"
  have stop: "main_setup w h = Stop" if "w = 0 \<or> h = 0"
    using that by (auto simp: main_setup_def)
  have thr: "main_setup w h = Throws LengthError" if "w \<noteq> 0 \<and> h \<noteq> 0" "sz < 0"
    using that by (simp add: main_setup_def NumberLink_def Let_def sz_def)
  have one: "main_setup w h =
           Ready \<lparr>width = w, height = h, board_size = 1, cell_x = [0], cell_y = [0],
                   table = [0], keys = [0], start = [0, 1]\<rparr>
                 \<lparr>mates = [0], mate_stack = [], memo = [Map.empty]\<rparr>"
    if nz: "w \<noteq> 0 \<and> h \<noteq> 0" and s: "sz = 1"
  proof -
    define B0 where "B0 = \<lparr>width = w, height = h, board_size = 1,
                     cell_x = [0], cell_y = [0], table = [0], keys = [0::int],
                     start = [0, 0]\<rparr>"
    define s0 where "s0 = \<lparr>mates = [0::int], mate_stack = [],
                     memo = [Map.empty :: Hash \<rightharpoonup> nat]\<rparr>"
    have nl: "NumberLink w h = Inr (B0, s0)"
      using s by (simp add: NumberLink_def Let_def sz_def [symmetric] B0_def s0_def numeral_2_eq_2)
    have ak: "assign_keys B0 0 0 0 = Some B0"
      by (subst assign_keys.simps) (simp add: B0_def Let_def)
    have ist: "init_start B0 0 = B0"
      by (subst init_start.simps, subst init_start.simps) (simp add: B0_def Let_def)
    have im: "init_mates 1 0 [0] = [0]"
      by (subst init_mates.simps, subst init_mates.simps) simp
    have "Initialize (B0, s0) = Some (B0\<lparr>start := [0, 1]\<rparr>, s0)"
      unfolding Initialize_def Let_def fst_conv snd_conv ak option.case ist
      by (simp add: B0_def s0_def im)
    then show ?thesis using nz nl by (simp add: main_setup_def B0_def s0_def)
  qed
  have never: "main_setup w h = NoReturn"
    if nz: "w \<noteq> 0 \<and> h \<noteq> 0" and neg: "w < 0 \<or> h < 0" and s: "1 < sz"
  proof -
    define B0 where "B0 = \<lparr>width = w, height = h, board_size = sz,
                     cell_x = replicate (nat sz) 0, cell_y = replicate (nat sz) 0,
                     table = replicate (nat sz) 0, keys = replicate (nat sz) 0,
                     start = replicate (nat (sz + 1)) 0\<rparr>"
    define s0 where "s0 = \<lparr>mates = replicate (nat sz) (0::int), mate_stack = [],
                     memo = replicate (nat sz) (Map.empty :: Hash \<rightharpoonup> nat)\<rparr>"
    have nl: "NumberLink w h = Inr (B0, s0)"
      using s unfolding NumberLink_def Let_def sz_def [symmetric] B0_def s0_def by simp
    have B0: "width B0 = w" "height B0 = h" "board_size B0 = sz" by (simp_all add: B0_def)
    have nc: "next_cell w h 0 0 = None" using neg by (intro next_cell_never) auto
    have "assign_keys B0 0 0 0 = None"
      using s nc by (subst assign_keys.simps) (simp add: B0 Let_def)
    then have "Initialize (B0, s0) = None"
      unfolding Initialize_def Let_def fst_conv by (simp only: option.case)
    then show ?thesis using nz nl by (simp add: main_setup_def)
  qed
  show ?thesis
  proof (intro conjI impI)
    assume "w = 0 \<or> h = 0"
    then show "main_setup w h = Stop" by (rule stop)
  next
    assume a: "w \<noteq> 0 \<and> h \<noteq> 0 \<and> (w < 0 \<or> h < 0) \<and>
               - 2147483648 \<le> to_short w * h \<and> to_short w * h \<le> 2147483647"
      and b: "to_short (to_short w * h) < 0"
    from a have "w \<noteq> 0 \<and> h \<noteq> 0" by simp
    then show "main_setup w h = Throws LengthError" using b unfolding sz_def [symmetric] by (rule thr)
  next
    assume a: "w \<noteq> 0 \<and> h \<noteq> 0 \<and> (w < 0 \<or> h < 0) \<and>
               - 2147483648 \<le> to_short w * h \<and> to_short w * h \<le> 2147483647"
      and b: "to_short (to_short w * h) = 1"
    from a have "w \<noteq> 0 \<and> h \<noteq> 0" by simp
    then show "main_setup w h =
           Ready \<lparr>width = w, height = h, board_size = 1, cell_x = [0], cell_y = [0],
                   table = [0], keys = [0], start = [0, 1]\<rparr>
                 \<lparr>mates = [0], mate_stack = [], memo = [Map.empty]\<rparr>"
      using b unfolding sz_def [symmetric] by (rule one)
  next
    assume a: "w \<noteq> 0 \<and> h \<noteq> 0 \<and> (w < 0 \<or> h < 0) \<and>
               - 2147483648 \<le> to_short w * h \<and> to_short w * h \<le> 2147483647"
      and b: "1 < to_short (to_short w * h)"
    from a have "w \<noteq> 0 \<and> h \<noteq> 0" "w < 0 \<or> h < 0" by simp_all
    then show "main_setup w h = NoReturn" using b unfolding sz_def [symmetric] by (rule never)
  qed
qed

theorem main_setup_no_keys_witness:
  "main_setup 0 5 = Stop \<and> main_setup (-2) 3 = Throws LengthError \<and>
   main_setup (-1) 70000 = Throws LengthError \<and>
   main_setup (-200) 200 = NoReturn \<and>
   main_setup 3 (-21845) =
     Ready \<lparr>width = 3, height = -21845, board_size = 1, cell_x = [0], cell_y = [0],
             table = [0], keys = [0], start = [0, 1]\<rparr>
           \<lparr>mates = [0], mate_stack = [], memo = [Map.empty]\<rparr>"
proof -
  have "main_setup 0 5 = Stop" using main_setup_no_keys [of 0 5] by simp
  moreover have "main_setup (-2) 3 = Throws LengthError"
    using main_setup_no_keys [of "-2" 3] by (simp add: to_short_def)
  moreover have "main_setup (-1) 70000 = Throws LengthError"
    using main_setup_no_keys [of "-1" 70000] by (simp add: to_short_def)
  moreover have "main_setup (-200) 200 = NoReturn"
    using main_setup_no_keys [of "-200" 200] by (simp add: to_short_def)
  moreover have "main_setup 3 (-21845) =
     Ready \<lparr>width = 3, height = -21845, board_size = 1, cell_x = [0], cell_y = [0],
             table = [0], keys = [0], start = [0, 1]\<rparr>
           \<lparr>mates = [0], mate_stack = [], memo = [Map.empty]\<rparr>"
    using main_setup_no_keys [of 3 "-21845"] by (simp add: to_short_def)
  ultimately show ?thesis by (intro conjI)
qed

text \<open>
  Claim C8, as stated: every board in which some number greater than 0 occurs an odd number
  of times has the solution count 0. The board of one cell with the number 256 is read into
  the cell number 0 (the cell numbers are \<open>char\<close> values), and its solution count is 1.
\<close>

theorem odd_label_no_solution_counterexample:
  "case NumberLink 1 1 of
     Inl e \<Rightarrow> False
   | Inr nl \<Rightarrow>
       (case Initialize nl of
          None \<Rightarrow> False
        | Some (B, st) \<Rightarrow>
            (case read_cells B 0 0 [256] of
               None \<Rightarrow> False
             | Some B' \<Rightarrow>
                 odd (count_list [256 :: int] 256) \<and> table B' = [0] \<and>
                 fst (Solve B' 0 st) = 1))"
  by code_simp

text \<open>
  Claim C8, amended. For a board of positive width and height with at most 32767 cells,
  read from numbers that are all stored as cell numbers that are 0 or positive (every
  number from 0 to 127 is), in which some positive cell number is stored an odd number of
  times: the constructor, \<open>Initialize\<close> and the reading of the cells return, and \<open>Solve\<close>,
  started at key 0, returns the count 0.
\<close>

theorem odd_label_no_solution:
  assumes "0 < w" "0 < h" "w * h \<le> 32767"
    and "length vals = nat (w * h)" "\<forall>a \<in> set vals. 0 \<le> to_char a"
    and "0 < v" "odd (count_list (map to_char vals) v)"
  shows "\<exists>nl B st B'. NumberLink w h = Inr nl \<and> Initialize nl = Some (B, st) \<and>
           read_cells B 0 0 vals = Some B' \<and> fst (Solve B' 0 st) = 0"
proof -
  define n where "n = nat (w * h)"
  define st where "st = \<lparr>mates = map int [0..<n], mate_stack = [],
                         memo = replicate n (Map.empty :: Hash \<rightharpoonup> nat)\<rparr>"
  obtain nl B where i: "NumberLink w h = Inr nl" "Initialize nl = Some (B, st)"
    and ok: "board_ok w h B" and tb: "table B = replicate n 0"
    using Initialize_ok [OF assms(1-3)] unfolding st_def n_def by blast
  note pos = assms(1,2)
  have B: "B = B\<lparr>table := table B\<rparr>" by simp
  have "\<exists>t'. read_cells B 0 0 vals = Some (B\<lparr>table := t'\<rparr>) \<and> length t' = nat (w * h) \<and>
              (\<forall>u v. in_grid w h u v \<longrightarrow>
                 t' ! nat (GetCellKey B u v) = to_char (vals ! nat (v * w + u)))"
  proof (rule read_cells_spec [OF ok pos assms(4) B])
    show "length (table B) = nat (w * h)" using tb by (simp add: n_def)
    show "vals = drop (nat (0 * w + 0)) vals" by simp
    show "\<forall>u v. in_grid w h u v \<and> v * w + u < 0 * w + 0 \<longrightarrow>
                 table B ! nat (GetCellKey B u v) = to_char (vals ! nat (v * w + u))"
      using pos_bound by fastforce
  qed (use pos in simp_all)
  then obtain t' where t': "read_cells B 0 0 vals = Some (B\<lparr>table := t'\<rparr>)" "length t' = n"
    "\<forall>u v. in_grid w h u v \<longrightarrow> t' ! nat (GetCellKey B u v) = to_char (vals ! nat (v * w + u))"
    unfolding n_def by blast
  let ?B = "B\<lparr>table := t'\<rparr>"
  have stored: "\<forall>u v. in_grid w h u v \<longrightarrow>
                  t' ! nat (GetCellKey B u v) = map to_char vals ! nat (v * w + u)"
  proof (intro allI impI)
    fix u v assume g: "in_grid w h u v"
    have "nat (v * w + u) < length vals" using pos_bound [OF g] assms(4) by simp
    then show "t' ! nat (GetCellKey B u v) = map to_char vals ! nat (v * w + u)"
      using t'(3) g by simp
  qed
  have lm: "length (map to_char vals) = nat (w * h)" using assms(4) by simp
  have cnt: "\<And>a. count_list t' a = count_list (map to_char vals) a"
    using stored_count [OF ok pos t'(2) [unfolded n_def] lm stored] .
  have geo: "geometry_ok ?B n"
    using board_geometry [OF ok pos] by (simp add: n_def)
  have len: "length (table ?B) = n" using t'(2) by simp
  have lab: "\<forall>k \<in> {0..<n}. 0 \<le> table ?B ! k"
  proof
    fix k assume "k \<in> {0..<n}"
    then have k: "k < length t'" using t'(2) by simp
    have "t' ! k \<in> set t'" using k by simp
    then have "count_list t' (t' ! k) \<noteq> 0" by (simp add: count_list_0_iff)
    then have "count_list (map to_char vals) (t' ! k) \<noteq> 0" using cnt by simp
    then have "t' ! k \<in> set (map to_char vals)" by (simp add: count_list_0_iff)
    then obtain a where "a \<in> set vals" "t' ! k = to_char a" by auto
    then show "0 \<le> table ?B ! k" using assms(5) by simp
  qed
  have odd: "odd (count_list (table ?B) v)" using assms(7) cnt by simp
  have inv: "search_inv (table ?B) n (if (0::nat) = 0 then 0 else start ?B ! (0 - 1)) (mates st)"
    by (simp add: st_def search_inv_init)
  have mz: "memo_zero n (memo st)" by (simp add: st_def memo_zero_init)
  have "\<exists>M. Solve ?B (int 0) st = (0, st\<lparr>memo := M\<rparr>) \<and> memo_zero n M"
    using geo len lab assms(6) odd _ inv mz by (rule Solve_zero) simp
  then have "fst (Solve ?B 0 st) = 0" by auto
  then show ?thesis using i t'(1) by blast
qed

theorem odd_label_no_solution_witness:
  "\<exists>nl B st B'. NumberLink 2 2 = Inr nl \<and> Initialize nl = Some (B, st) \<and>
      read_cells B 0 0 [5, 0, 261, 5] = Some B' \<and> fst (Solve B' 0 st) = 0"
proof -
  have h: "(0::int) < 2" "(2::int) * 2 \<le> 32767" "length [5::int, 0, 261, 5] = nat (2 * 2)"
    "\<forall>a \<in> set [5::int, 0, 261, 5]. 0 \<le> to_char a" "(0::int) < 5"
    "odd (count_list (map to_char [5::int, 0, 261, 5]) 5)"
    by (simp_all add: to_char_def)
  show ?thesis using odd_label_no_solution [OF h(1) h(1) h(2-6)] .
qed

end
